theory Spec2Isabelle
  imports Complex_Main "HOL-Library.Char_ord" "HOL-Library.List_Lexorder" "HOL-Library.Log_Nat"
    "HOL-Library.Multiset"
begin

section \<open>Python values and errors\<close>

text \<open>
  The exceptions that the code of \<^verbatim>\<open>reposheet.py\<close> can raise or pass on. The first
  group is raised by Python itself, the second by the GitHub client library; \<open>ReError\<close>
  is \<^verbatim>\<open>re.error\<close>, \<open>OtherError\<close> stands for any further exception of a collaborator.
\<close>

datatype py_error =
    AssertionError | ValueError | ZeroDivisionError | AttributeError | IndexError | TypeError
  | UnknownObjectException | RateLimitExceededException | BadCredentialsException
  | ReError | OtherError string

text \<open>Sequencing of computations that may raise: the first error ends the computation.\<close>

definition ebind :: "py_error + 'a \<Rightarrow> ('a \<Rightarrow> py_error + 'b) \<Rightarrow> py_error + 'b" where
  "ebind m f = (case m of Inl e \<Rightarrow> Inl e | Inr x \<Rightarrow> f x)"

text \<open>A list comprehension whose element expression may raise: elements are evaluated in
  order, and the first error is the result.\<close>

fun emap :: "('a \<Rightarrow> py_error + 'b) \<Rightarrow> 'a list \<Rightarrow> py_error + 'b list" where
  "emap f [] = Inr []"
| "emap f (x # xs) = ebind (f x) (\<lambda>y. ebind (emap f xs) (\<lambda>ys. Inr (y # ys)))"

section \<open>Floats\<close>

text \<open>
  A Python float is an IEEE 754 double: a number \<open>m * 2 ^ e\<close> with an integer significand
  \<open>m\<close> below \<open>2 ^ 53\<close> and an exponent \<open>e\<close> of at least \<open>- 1074\<close>. Every arithmetic operation
  gives the double that is nearest to the exact result, and of two nearest ones the one
  with the even significand. \<open>fl\<close> is this rounding of a rational number.

  The exponent of a double is also bounded above. The model has no upper bound: an int
  or a quotient beyond the largest double (about \<open>1.8 * 10 ^ 308\<close>), for which Python raises
  \<^verbatim>\<open>OverflowError\<close> or gives \<^verbatim>\<open>inf\<close>, is outside the model.
\<close>

definition round_half_even :: "rat \<Rightarrow> int" where
  "round_half_even q =
     (let f = \<lfloor>q\<rfloor>; r = q - of_int f
      in if r < 1 / 2 then f else if 1 / 2 < r then f + 1 else if even f then f else f + 1)"

text \<open>For a positive \<open>q\<close>, the integer \<open>k\<close> with \<open>2 ^ k \<le> q < 2 ^ (k + 1)\<close>.\<close>

definition ilog2 :: "rat \<Rightarrow> int" where
  "ilog2 q = (if 1 \<le> q then bitlen \<lfloor>q\<rfloor> - 1 else - bitlen (\<lceil>1 / q\<rceil> - 1))"

definition fl :: "rat \<Rightarrow> rat" where
  "fl q =
     (if q = 0 then 0
      else let e = max (- 1074) (ilog2 \<bar>q\<bar> - 52)
           in sgn q * of_int (round_half_even (\<bar>q\<bar> / 2 powi e)) * 2 powi e)"

text \<open>
  A double has a sign also when it is zero, and Python prints \<^verbatim>\<open>-0.0\<close> and \<^verbatim>\<open>0.0\<close>
  differently: \<open>NegZero\<close> is the negative zero, \<open>Fl 0\<close> the positive one.
\<close>

datatype pyfloat = Fl rat | NegZero

fun fval :: "pyfloat \<Rightarrow> rat" where
  "fval (Fl q) = q"
| "fval NegZero = 0"

fun fneg :: "pyfloat \<Rightarrow> bool" where
  "fneg (Fl q) = (q < 0)"
| "fneg NegZero = True"

text \<open>The double for an exact result \<open>q\<close> whose sign is negative if \<open>neg\<close>; the sign shows
  only when the result is zero or is rounded to zero.\<close>

definition mk_float :: "bool \<Rightarrow> rat \<Rightarrow> pyfloat" where
  "mk_float neg q = (let r = fl q in if r = 0 then (if neg then NegZero else Fl 0) else Fl r)"

text \<open>True division of ints, \<^verbatim>\<open>a / b\<close>; conversion of an int in mixed arithmetic;
  multiplication of floats.\<close>

definition py_truediv :: "int \<Rightarrow> int \<Rightarrow> py_error + pyfloat" where
  "py_truediv a b =
     (if b = 0 then Inl ZeroDivisionError
      else Inr (mk_float ((a < 0) \<noteq> (b < 0)) (of_int a / of_int b)))"

definition to_float :: "int \<Rightarrow> pyfloat" where
  "to_float k = Fl (fl (of_int k))"

definition fmul :: "pyfloat \<Rightarrow> pyfloat \<Rightarrow> pyfloat" where
  "fmul x y = mk_float (fneg x \<noteq> fneg y) (fval x * fval y)"

section \<open>The sparkline formatter\<close>

text \<open>
  A number that is interpolated into the markup is either still an \<^verbatim>\<open>int\<close> (\<open>PInt\<close>) or
  a float (\<open>PFloat\<close>); the two are printed differently by Python, so the model keeps them
  apart.
\<close>

datatype pynum = PInt int | PFloat pyfloat

fun num_val :: "pynum \<Rightarrow> rat" where
  "num_val (PInt i) = of_int i"
| "num_val (PFloat x) = fval x"

text \<open>\<^verbatim>\<open>min(data)\<close> and \<^verbatim>\<open>max(data)\<close> raise \<^verbatim>\<open>ValueError\<close> on an empty sequence.\<close>

fun py_min :: "int list \<Rightarrow> py_error + int" where
  "py_min [] = Inl ValueError"
| "py_min (x # xs) = Inr (fold min xs x)"

fun py_max :: "int list \<Rightarrow> py_error + int" where
  "py_max [] = Inl ValueError"
| "py_max (x # xs) = Inr (fold max xs x)"

definition enumerate_py :: "'a list \<Rightarrow> (nat \<times> 'a) list" where
  "enumerate_py xs = zip [0 ..< length xs] xs"

text \<open>The keyword parameters of \<^verbatim>\<open>sparkline_svg\<close>; \<open>None\<close> is an absent keyword.\<close>

record params =
  p_width :: "int option"
  p_height :: "int option"
  p_stroke :: "string option"
  p_weight :: "int option"

definition no_params :: params where
  "no_params = \<lparr>p_width = None, p_height = None, p_stroke = None, p_weight = None\<rparr>"

definition param_get :: "'a option \<Rightarrow> 'a \<Rightarrow> 'a" where
  "param_get v d = (case v of None \<Rightarrow> d | Some x \<Rightarrow> x)"

text \<open>One element of the comprehension of the scaling branch (source line 33):
  \<^verbatim>\<open>i / len(data) * width\<close>, then \<^verbatim>\<open>(max_ - val)/max_*height\<close>.\<close>

definition scaled_point :: "nat \<Rightarrow> int \<Rightarrow> int \<Rightarrow> int \<Rightarrow> nat \<times> int \<Rightarrow> py_error + pyfloat \<times> pynum" where
  "scaled_point n width height mx p =
     ebind (py_truediv (int (fst p)) (int n)) (\<lambda>a.
     let x = fmul a (to_float width) in
     ebind (py_truediv (mx - snd p) mx) (\<lambda>b.
     Inr (x, PFloat (fmul b (to_float height)))))"

text \<open>One element of the comprehension of the flat branch (source line 37).\<close>

definition flat_point :: "nat \<Rightarrow> int \<Rightarrow> int \<Rightarrow> nat \<times> int \<Rightarrow> py_error + pyfloat \<times> pynum" where
  "flat_point n width height p =
     ebind (py_truediv (int (fst p)) (int n)) (\<lambda>a.
     Inr (fmul a (to_float width), PInt (height - 1)))"

text \<open>Source lines 30 to 37: the coordinates of the polyline.\<close>

definition sparkline_points :: "int list \<Rightarrow> int \<Rightarrow> int \<Rightarrow> py_error + (pyfloat \<times> pynum) list" where
  "sparkline_points data width height =
     ebind (py_min data) (\<lambda>mn.
     ebind (py_max data) (\<lambda>mx.
       if mn \<noteq> mx
       then emap (scaled_point (length data) width height mx) (enumerate_py data)
       else emap (flat_point (length data) width height) (enumerate_py data)))"

fun join :: "string \<Rightarrow> string list \<Rightarrow> string" where
  "join sep [] = []"
| "join sep [x] = x"
| "join sep (x # y # ys) = x @ sep @ join sep (y # ys)"

text \<open>
  How Python prints a number inside an f-string (\<^verbatim>\<open>str\<close> of an int or of a float) is a
  builtin of the language; it is the parameter \<open>num_str\<close> of the model.
\<close>

definition point_str :: "(pynum \<Rightarrow> string) \<Rightarrow> pyfloat \<times> pynum \<Rightarrow> string" where
  "point_str num_str p = num_str (PFloat (fst p)) @ '','' @ num_str (snd p)"

definition svg_markup :: "(pynum \<Rightarrow> string) \<Rightarrow> bool \<Rightarrow> int \<Rightarrow> int \<Rightarrow> string \<Rightarrow> int
    \<Rightarrow> (pyfloat \<times> pynum) list \<Rightarrow> string" where
  "svg_markup num_str add_embed width height stroke weight pts =
     (let points = join '' '' (map (point_str num_str) pts);
          style = ''fill: none; stroke: '' @ stroke @ ''; stroke-width: '' @ num_str (PInt weight);
          svg = ''<svg height=\"'' @ num_str (PInt height) @ ''\" width=\"'' @ num_str (PInt width)
                @ ''\"><polyline points=\"'' @ points @ ''\" style=\"'' @ style @ ''\" /></svg>''
      in if add_embed then ''<embed>'' @ svg @ ''</embed>'' else svg)"

definition sparkline_svg :: "(pynum \<Rightarrow> string) \<Rightarrow> int list \<Rightarrow> bool \<Rightarrow> params \<Rightarrow> py_error + string" where
  "sparkline_svg num_str data add_embed ps =
     (let width = param_get (p_width ps) (int (length data));
          height = param_get (p_height ps) 10;
          stroke = param_get (p_stroke ps) ''#8cc665'';
          weight = param_get (p_weight ps) 2
      in ebind (sparkline_points data width height) (\<lambda>pts.
           Inr (svg_markup num_str add_embed width height stroke weight pts)))"

section \<open>Repository objects and the GitHub client\<close>

text \<open>
  The values that attributes of a repository evaluate to. \<open>VObj\<close> is an object of the
  client library given by its attributes (a paginated list with its \<^verbatim>\<open>totalCount\<close>, a
  week of commit activity with its \<^verbatim>\<open>total\<close>); \<open>VDict\<close> is a dict with string keys in
  insertion order.
\<close>

datatype pyval =
    VNone | VBool bool | VInt int | VStr string | VList "pyval list"
  | VDict "(string \<times> pyval) list" | VObj "(string \<times> pyval) list"

text \<open>Truth value testing, as in \<^verbatim>\<open>if res:\<close>.\<close>

fun truthy :: "pyval \<Rightarrow> bool" where
  "truthy VNone = False"
| "truthy (VBool b) = b"
| "truthy (VInt i) = (i \<noteq> 0)"
| "truthy (VStr s) = (s \<noteq> [])"
| "truthy (VList xs) = (xs \<noteq> [])"
| "truthy (VDict kvs) = (kvs \<noteq> [])"
| "truthy (VObj as) = True"

text \<open>Attribute access on a value, as in \<^verbatim>\<open>res.totalCount\<close> and \<^verbatim>\<open>act.total\<close>.\<close>

fun getattr_val :: "pyval \<Rightarrow> string \<Rightarrow> py_error + pyval" where
  "getattr_val (VObj as) name =
     (case map_of as name of None \<Rightarrow> Inl AttributeError | Some v \<Rightarrow> Inr v)"
| "getattr_val _ name = Inl AttributeError"

text \<open>
  The remote side (the hosting service behind the network) is a state of type \<open>'w\<close>. An
  attribute of a repository object is either a plain value or a bound method; calling a
  method reads and may change the remote state, and may raise.
\<close>

datatype 'w thing =
    Plain pyval
  | Method "pyval list \<Rightarrow> (string \<times> pyval) list \<Rightarrow> 'w \<Rightarrow> (py_error + pyval) \<times> 'w"

record 'w repo =
  repo_id :: nat
  attrs :: "(string \<times> 'w thing) list"

record 'w owner =
  login :: string
  get_repos :: "'w \<Rightarrow> (py_error + 'w repo list) \<times> 'w"

record 'w github =
  get_organization :: "string option \<Rightarrow> 'w \<Rightarrow> (py_error + 'w owner) \<times> 'w"
  get_user :: "string option \<Rightarrow> 'w \<Rightarrow> (py_error + 'w owner) \<times> 'w"

text \<open>
  Builtins of Python that the code calls and whose definitions are outside the repository:
  how numbers and other values are printed in an f-string, and \<^verbatim>\<open>re.match\<close>, which is
  given a pattern and a string and tells whether the pattern matches at the start of the
  string (or raises, for a pattern that is not a regular expression).
\<close>

record builtins =
  num_str :: "pynum \<Rightarrow> string"
  val_str :: "pyval \<Rightarrow> string"
  re_match :: "string \<Rightarrow> string \<Rightarrow> py_error + bool"

definition fmt :: "builtins \<Rightarrow> pyval \<Rightarrow> string" where
  "fmt py v = (case v of VStr s \<Rightarrow> s | _ \<Rightarrow> val_str py v)"

section \<open>The scanner state and the memoized attribute resolver\<close>

text \<open>
  The key of a cache entry: repository identity, attribute name, total flag, positional
  and keyword arguments.
\<close>

type_synonym key = "nat \<times> string \<times> bool \<times> pyval list \<times> (string \<times> pyval) list"

text \<open>
  The state that a scan threads through: the remote state, the cache of the resolver, and
  \<open>invoked\<close>, the log of the executions of the body of \<^verbatim>\<open>get_repo_attr\<close> (one key for
  each time the body runs), which is what invocation counts are read from.
\<close>

record 'w state =
  world :: 'w
  cache :: "key \<Rightarrow> pyval option"
  invoked :: "key list"

type_synonym ('w, 'a) act = "'w state \<Rightarrow> (py_error + 'a) \<times> 'w state"

definition ret :: "'a \<Rightarrow> ('w, 'a) act" where
  "ret x = (\<lambda>s. (Inr x, s))"

definition bnd :: "('w, 'a) act \<Rightarrow> ('a \<Rightarrow> ('w, 'b) act) \<Rightarrow> ('w, 'b) act" where
  "bnd m f = (\<lambda>s. case m s of (Inl e, s') \<Rightarrow> (Inl e, s') | (Inr x, s') \<Rightarrow> f x s')"

text \<open>A computation without effect that may raise.\<close>

definition lift :: "py_error + 'a \<Rightarrow> ('w, 'a) act" where
  "lift m = (\<lambda>s. (m, s))"

text \<open>A call to the remote side.\<close>

definition net :: "('w \<Rightarrow> (py_error + 'a) \<times> 'w) \<Rightarrow> ('w, 'a) act" where
  "net f = (\<lambda>s. case f (world s) of (r, w') \<Rightarrow> (r, s\<lparr>world := w'\<rparr>))"

text \<open>The body of \<^verbatim>\<open>get_repo_attr\<close> (source lines 78 to 83), without the decorator.\<close>

definition get_repo_attr_body ::
  "'w repo \<Rightarrow> string \<Rightarrow> bool \<Rightarrow> pyval list \<Rightarrow> (string \<times> pyval) list \<Rightarrow> 'w \<Rightarrow> (py_error + pyval) \<times> 'w" where
  "get_repo_attr_body repo name total_flag args kwargs w =
     (case map_of (attrs repo) name of
        None \<Rightarrow> (Inl AttributeError, w)
      | Some (Method f) \<Rightarrow>
          (case f args kwargs w of
             (Inl e, w') \<Rightarrow> (Inl e, w')
           | (Inr res, w') \<Rightarrow> (if total_flag then getattr_val res ''totalCount'' else Inr res, w'))
      | Some (Plain v) \<Rightarrow> (Inr v, w))"

text \<open>
  Modelled from the spec: the decorator \<^verbatim>\<open>@cached\<close> of source line 52 comes from the
  package \<^verbatim>\<open>memoization\<close>, whose code is not part of the sources. The spec (sections 3 and
  4.1) gives its behaviour: the result is memoized under the full call signature (repo
  identity, name, total, args, kwargs); a lookup with a key that has an entry returns the
  entry without running the body; a failed attempt is not stored.
\<close>

definition get_repo_attr ::
  "'w repo \<Rightarrow> string \<Rightarrow> bool \<Rightarrow> pyval list \<Rightarrow> (string \<times> pyval) list \<Rightarrow> ('w, pyval) act" where
  "get_repo_attr repo name total_flag args kwargs s =
     (let k = (repo_id repo, name, total_flag, args, kwargs) in
      case cache s k of
        Some v \<Rightarrow> (Inr v, s)
      | None \<Rightarrow>
          (case get_repo_attr_body repo name total_flag args kwargs (world s) of
             (Inl e, w') \<Rightarrow> (Inl e, s\<lparr>world := w', invoked := invoked s @ [k]\<rparr>)
           | (Inr v, w') \<Rightarrow>
               (Inr v, s\<lparr>world := w', cache := (cache s)(k \<mapsto> v), invoked := invoked s @ [k]\<rparr>)))"

section \<open>Helpers of the scanner: strings, dicts, sequences\<close>

text \<open>
  \<^verbatim>\<open>str.lower\<close>. Strings of the model are sequences of 8-bit characters, and the model
  lowers the letters A to Z (the code of the lower-case letter is the code of the
  upper-case letter plus 32, that is, with bit 5 set); names of repositories on the
  hosting service are ASCII.
\<close>

definition lower_char :: "char \<Rightarrow> char" where
  "lower_char c =
     (if CHR ''A'' \<le> c \<and> c \<le> CHR ''Z''
      then (case c of Char b0 b1 b2 b3 b4 b5 b6 b7 \<Rightarrow> Char b0 b1 b2 b3 b4 True b6 b7)
      else c)"

definition lower :: "string \<Rightarrow> string" where
  "lower s = map lower_char s"

text \<open>\<^verbatim>\<open>s.split(c)\<close> for a separator of one character, and \<^verbatim>\<open>xs[i]\<close>.\<close>

fun split_on :: "char \<Rightarrow> string \<Rightarrow> string list" where
  "split_on c [] = [[]]"
| "split_on c (x # xs) =
     (if x = c then [] # split_on c xs
      else (case split_on c xs of [] \<Rightarrow> [[x]] | y # ys \<Rightarrow> (x # y) # ys))"

fun list_index :: "'a list \<Rightarrow> nat \<Rightarrow> py_error + 'a" where
  "list_index [] i = Inl IndexError"
| "list_index (x # xs) 0 = Inr x"
| "list_index (x # xs) (Suc i) = list_index xs i"

text \<open>
  An output record is a Python dict: keys in insertion order, and an assignment to a key
  that is present replaces the value where the key stands.
\<close>

type_synonym entry = "(string \<times> pyval) list"

fun dict_set :: "entry \<Rightarrow> string \<Rightarrow> pyval \<Rightarrow> entry" where
  "dict_set [] k v = [(k, v)]"
| "dict_set (p # ps) k v = (if fst p = k then (k, v) # ps else p # dict_set ps k v)"

definition dict_update :: "entry \<Rightarrow> entry \<Rightarrow> entry" where
  "dict_update d other = fold (\<lambda>kv acc. dict_set acc (fst kv) (snd kv)) other d"

fun dict_keys :: "pyval \<Rightarrow> py_error + string list" where
  "dict_keys (VDict kvs) = Inr (map fst kvs)"
| "dict_keys _ = Inl AttributeError"

text \<open>Iteration over a value, as in \<^verbatim>\<open>for act in res\<close>.\<close>

fun py_iter :: "pyval \<Rightarrow> py_error + pyval list" where
  "py_iter (VList xs) = Inr xs"
| "py_iter (VDict kvs) = Inr (map (\<lambda>kv. VStr (fst kv)) kvs)"
| "py_iter (VStr s) = Inr (map (\<lambda>c. VStr [c]) s)"
| "py_iter _ = Inl TypeError"

text \<open>Integers in arithmetic (a bool counts as 0 or 1), and \<^verbatim>\<open>sum\<close>.\<close>

fun as_int :: "pyval \<Rightarrow> py_error + int" where
  "as_int (VInt i) = Inr i"
| "as_int (VBool b) = Inr (if b then 1 else 0)"
| "as_int _ = Inl TypeError"

definition py_sum :: "pyval list \<Rightarrow> py_error + pyval" where
  "py_sum xs = ebind (emap as_int xs) (\<lambda>ns. Inr (VInt (sum_list ns)))"

text \<open>The comprehension \<^verbatim>\<open>[act.total for act in res]\<close> of source lines 171, 172 and 178.\<close>

definition week_totals :: "pyval \<Rightarrow> py_error + pyval list" where
  "week_totals res = ebind (py_iter res) (emap (\<lambda>act. getattr_val act ''total''))"

text \<open>A list comprehension with a condition that may raise.\<close>

fun efilter :: "('a \<Rightarrow> py_error + bool) \<Rightarrow> 'a list \<Rightarrow> py_error + 'a list" where
  "efilter f [] = Inr []"
| "efilter f (x # xs) =
     ebind (f x) (\<lambda>b. ebind (efilter f xs) (\<lambda>ys. Inr (if b then x # ys else ys)))"

section \<open>The scanner\<close>

type_synonym 'w callback = "'w repo \<Rightarrow> ('w, entry) act"

text \<open>The arguments of \<^verbatim>\<open>scan_repos\<close>; \<open>None\<close> is the default \<^verbatim>\<open>None\<close> of the source
  (\<open>fields_arg\<close> is the argument \<^verbatim>\<open>fields\<close>).\<close>

record 'w scan_args =
  org_name :: "string option"
  user_name :: "string option"
  owner_name :: "string option"
  repo_name_pat :: "string option"
  fields_arg :: "string list option"
  callbacks :: "'w callback list option"
  use_tqdm :: bool

text \<open>Truth value of an optional string: \<^verbatim>\<open>None\<close> and the empty string are false.\<close>

definition given :: "string option \<Rightarrow> bool" where
  "given x = (case x of None \<Rightarrow> False | Some s \<Rightarrow> s \<noteq> [])"

text \<open>Source lines 112 to 121: the owner is looked up as an organization or as a user.\<close>

definition resolve_owner :: "'w github \<Rightarrow> 'w scan_args \<Rightarrow> ('w, 'w owner) act" where
  "resolve_owner g a =
     (if \<not> given (owner_name a)
      then (if given (org_name a) then net (get_organization g (org_name a))
            else net (get_user g (user_name a)))
      else (\<lambda>s. case net (get_organization g (owner_name a)) s of
                  (Inl e, s') \<Rightarrow>
                    if e = UnknownObjectException then net (get_user g (owner_name a)) s'
                    else (Inl e, s')
                | (Inr owner, s') \<Rightarrow> (Inr owner, s')))"

text \<open>The sort key \<^verbatim>\<open>r.name.lower()\<close> of source line 122.\<close>

definition name_lower :: "'w repo \<Rightarrow> py_error + string" where
  "name_lower r =
     (case map_of (attrs r) ''name'' of
        Some (Plain (VStr s)) \<Rightarrow> Inr (lower s)
      | _ \<Rightarrow> Inl AttributeError)"

text \<open>\<^verbatim>\<open>sorted(..., key=...)\<close>: the keys are computed first, one for each element in order;
  the sort is stable.\<close>

definition sorted_repos :: "'w repo list \<Rightarrow> py_error + 'w repo list" where
  "sorted_repos rs = ebind (emap name_lower rs) (\<lambda>ks. Inr (map snd (sort_key fst (zip ks rs))))"

text \<open>The condition \<^verbatim>\<open>re.match(repo_name_pat, r.name)\<close> of source line 129.\<close>

definition name_matches :: "builtins \<Rightarrow> string \<Rightarrow> 'w repo \<Rightarrow> py_error + bool" where
  "name_matches py pat r =
     (case map_of (attrs r) ''name'' of
        None \<Rightarrow> Inl AttributeError
      | Some (Plain (VStr s)) \<Rightarrow> re_match py pat s
      | Some _ \<Rightarrow> Inl TypeError)"

text \<open>Source lines 128 and 129.\<close>

definition filter_repos :: "builtins \<Rightarrow> string option \<Rightarrow> 'w repo list \<Rightarrow> py_error + 'w repo list" where
  "filter_repos py pat repos =
     (case pat of
        None \<Rightarrow> Inr repos
      | Some p \<Rightarrow> if p \<noteq> [] then efilter (name_matches py p) repos else Inr repos)"

definition default_fields :: "string list" where
  "default_fields =
     [''name'', ''private'', ''archived'', ''fork'', ''created_at'',
      ''issues'', ''contributors'', ''subscribers'', ''branches'', ''releases'', ''tags'',
      ''labels'', ''pulls'', ''downloads'', ''forks_count'', ''stargazers_count'',
      ''get_languages'', ''get_commits'', ''commit_activity'']"

text \<open>Source line 130, \<^verbatim>\<open>fields or ...\<close>: an absent or empty list gives the default.\<close>

definition fields_or_default :: "string list option \<Rightarrow> string list" where
  "fields_or_default fs = (case fs of None \<Rightarrow> default_fields | Some [] \<Rightarrow> default_fields | Some l \<Rightarrow> l)"

subsection \<open>The fields of one record\<close>

text \<open>
  The body of the loop of source lines 137 to 184 is a sequence of statements, each of
  which takes the record built so far and gives the record after it; each may call the
  resolver and may raise. \<open>run_steps\<close> runs such a sequence in order and stops at the
  first error.
\<close>

type_synonym 'w step = "entry \<Rightarrow> ('w, entry) act"

fun run_steps :: "'w step list \<Rightarrow> 'w step" where
  "run_steps [] entry = ret entry"
| "run_steps (st # sts) entry = bnd (st entry) (run_steps sts)"

text \<open>Source lines 138 to 141.\<close>

definition step_name :: "string list \<Rightarrow> builtins \<Rightarrow> 'w owner \<Rightarrow> 'w repo \<Rightarrow> 'w step" where
  "step_name fs py owner repo entry =
     (if ''name'' \<in> set fs
      then bnd (get_repo_attr repo ''name'' False [] []) (\<lambda>repo_name.
             let url = ''https://github.com/'' @ login owner @ ''/'' @ fmt py repo_name
             in ret (dict_set entry ''name''
                       (VStr (''<a href=\"'' @ url @ ''\">'' @ fmt py repo_name @ ''</a>''))))
      else ret entry)"

text \<open>Source lines 142 to 146; \<^verbatim>\<open>full_name.split("/")\<close> needs a string.\<close>

definition step_full_name :: "string list \<Rightarrow> builtins \<Rightarrow> 'w owner \<Rightarrow> 'w repo \<Rightarrow> 'w step" where
  "step_full_name fs py owner repo entry =
     (if ''full_name'' \<in> set fs
      then bnd (get_repo_attr repo ''full_name'' False [] []) (\<lambda>full_name.
           bnd (lift (case full_name of
                        VStr s \<Rightarrow> list_index (split_on CHR ''/'' s) 1
                      | _ \<Rightarrow> Inl AttributeError)) (\<lambda>repo_name.
             let url = ''https://github.com/'' @ login owner @ ''/'' @ repo_name
             in ret (dict_set entry ''full_name''
                       (VStr (''<a href=\"'' @ url @ ''\">'' @ fmt py full_name @ ''</a>'')))))
      else ret entry)"

text \<open>Source lines 148 and 149, the body of the loop over \<^verbatim>\<open>private archived fork\<close>.\<close>

definition step_flag :: "string list \<Rightarrow> 'w repo \<Rightarrow> string \<Rightarrow> 'w step" where
  "step_flag fs repo name entry =
     (if name \<in> set fs
      then bnd (get_repo_attr repo name False [] []) (\<lambda>v.
             ret (dict_set entry name (VStr (if truthy v then ''T'' else ''F''))))
      else ret entry)"

text \<open>Source lines 150 and 151.\<close>

definition step_created_at :: "string list \<Rightarrow> 'w repo \<Rightarrow> 'w step" where
  "step_created_at fs repo entry =
     (if ''created_at'' \<in> set fs
      then bnd (get_repo_attr repo ''created_at'' False [] []) (\<lambda>v.
             ret (dict_set entry ''created_at'' v))
      else ret entry)"

text \<open>Source lines 155 and 156, the body of the loop over the count-style fields.\<close>

definition step_count :: "string list \<Rightarrow> 'w repo \<Rightarrow> string \<Rightarrow> 'w step" where
  "step_count fs repo key entry =
     (if key \<in> set fs
      then bnd (get_repo_attr repo (''get_'' @ key) True [] []) (\<lambda>v.
             ret (dict_set entry key v))
      else ret entry)"

text \<open>Source lines 157 to 160.\<close>

definition step_forks_count :: "string list \<Rightarrow> 'w repo \<Rightarrow> 'w step" where
  "step_forks_count fs repo entry =
     (if ''forks_count'' \<in> set fs
      then bnd (get_repo_attr repo ''forks_count'' False [] []) (\<lambda>v.
             ret (dict_set entry ''forks_count'' v))
      else ret entry)"

definition step_stargazers_count :: "string list \<Rightarrow> 'w repo \<Rightarrow> 'w step" where
  "step_stargazers_count fs repo entry =
     (if ''stargazers_count'' \<in> set fs
      then bnd (get_repo_attr repo ''stargazers_count'' False [] []) (\<lambda>v.
             ret (dict_set entry ''stargazers_count'' v))
      else ret entry)"

text \<open>Source lines 161 and 162.\<close>

definition step_get_languages :: "string list \<Rightarrow> 'w repo \<Rightarrow> 'w step" where
  "step_get_languages fs repo entry =
     (if ''get_languages'' \<in> set fs
      then bnd (get_repo_attr repo ''get_languages'' False [] []) (\<lambda>langs.
           bnd (lift (dict_keys langs)) (\<lambda>ks.
             ret (dict_set entry ''get_languages'' (VStr (join '','' (sort ks))))))
      else ret entry)"

text \<open>Source lines 163 to 167: the bare \<^verbatim>\<open>except:\<close> catches every error of the call.\<close>

definition step_get_commits :: "string list \<Rightarrow> 'w repo \<Rightarrow> 'w step" where
  "step_get_commits fs repo entry =
     (if ''get_commits'' \<in> set fs
      then (\<lambda>s. case get_repo_attr repo ''get_commits'' True [] [] s of
                  (Inr v, s') \<Rightarrow> (Inr (dict_set entry ''get_commits'' v), s')
                | (Inl e, s') \<Rightarrow> (Inr (dict_set entry ''get_commits'' VNone), s'))
      else ret entry)"

text \<open>Source lines 168 to 174; the sum is computed twice, as in the source.\<close>

definition step_commits_1y :: "string list \<Rightarrow> 'w repo \<Rightarrow> 'w step" where
  "step_commits_1y fs repo entry =
     (if ''commits_1y'' \<in> set fs
      then bnd (get_repo_attr repo ''get_stats_commit_activity'' False [] []) (\<lambda>res.
             if truthy res
             then bnd (lift (ebind (week_totals res) py_sum)) (\<lambda>commit_activity.
                  bnd (lift (ebind (week_totals res) py_sum)) (\<lambda>v.
                    ret (dict_set entry ''commits_1y'' v)))
             else ret (dict_set entry ''commits_1y'' (VInt 0)))
      else ret entry)"

text \<open>Source lines 175 to 181; the weekly totals are the integers that
  \<^verbatim>\<open>sparkline_svg\<close> is declared to take.\<close>

definition step_commit_activity :: "string list \<Rightarrow> builtins \<Rightarrow> 'w repo \<Rightarrow> 'w step" where
  "step_commit_activity fs py repo entry =
     (if ''commit_activity'' \<in> set fs
      then bnd (get_repo_attr repo ''get_stats_commit_activity'' False [] []) (\<lambda>res.
             if truthy res
             then bnd (lift (ebind (week_totals res) (emap as_int))) (\<lambda>commit_activity.
                  bnd (lift (sparkline_svg (num_str py) commit_activity False
                         \<lparr>p_width = Some 100, p_height = Some 15, p_stroke = None, p_weight = None\<rparr>))
                    (\<lambda>svg. ret (dict_set entry ''commit_activity'' (VStr svg))))
             else ret (dict_set entry ''commit_activity'' (VStr [])))
      else ret entry)"

text \<open>Source lines 182 to 184: each callback is called with the scanner (here: the state
  with its cache) and the repository, and its dict is merged into the record.\<close>

definition apply_callback :: "'w repo \<Rightarrow> 'w callback \<Rightarrow> 'w step" where
  "apply_callback repo cb entry = bnd (cb repo) (\<lambda>d. ret (dict_update entry d))"

definition step_callbacks :: "'w callback list option \<Rightarrow> 'w repo \<Rightarrow> 'w step" where
  "step_callbacks cbs repo entry =
     (case cbs of
        None \<Rightarrow> ret entry
      | Some cs \<Rightarrow> run_steps (map (apply_callback repo) cs) entry)"

text \<open>The statements of the loop body in the order of the source; the two inner loops
  contribute one statement for each of their keys.\<close>

definition entry_steps ::
  "string list \<Rightarrow> builtins \<Rightarrow> 'w callback list option \<Rightarrow> 'w owner \<Rightarrow> 'w repo \<Rightarrow> 'w step list" where
  "entry_steps fs py cbs owner repo =
     [step_name fs py owner repo, step_full_name fs py owner repo]
     @ map (step_flag fs repo) [''private'', ''archived'', ''fork'']
     @ [step_created_at fs repo]
     @ map (step_count fs repo)
         [''issues'', ''contributors'', ''subscribers'', ''branches'', ''releases'', ''tags'',
          ''labels'', ''pulls'', ''downloads'']
     @ [step_forks_count fs repo, step_stargazers_count fs repo, step_get_languages fs repo,
        step_get_commits fs repo, step_commits_1y fs repo, step_commit_activity fs py repo,
        step_callbacks cbs repo]"

text \<open>Source lines 137 to 184: the record of one repository, starting from the empty dict.\<close>

definition build_entry ::
  "string list \<Rightarrow> builtins \<Rightarrow> 'w callback list option \<Rightarrow> 'w owner \<Rightarrow> 'w repo \<Rightarrow> ('w, entry) act" where
  "build_entry fs py cbs owner repo = run_steps (entry_steps fs py cbs owner repo) []"

subsection \<open>The generator\<close>

text \<open>
  \<^verbatim>\<open>scan_repos\<close> is a generator. A run of it to its end is the sequence of the values it
  yields together with the error that ended it, if any, and the state it leaves.
  \<open>scan_loop\<close> is the loop of source lines 136 to 185; next to each record it keeps the
  repository that the record was built from.
\<close>

datatype 'w item = YRepos "'w repo list" | YEntry entry

fun scan_loop ::
  "string list \<Rightarrow> builtins \<Rightarrow> 'w callback list option \<Rightarrow> 'w owner \<Rightarrow> 'w repo list \<Rightarrow> 'w state
     \<Rightarrow> (('w repo \<times> entry) list \<times> py_error option) \<times> 'w state" where
  "scan_loop fs py cbs owner [] s = (([], None), s)"
| "scan_loop fs py cbs owner (repo # repos) s =
     (case build_entry fs py cbs owner repo s of
        (Inl e, s') \<Rightarrow> (([], Some e), s')
      | (Inr entry, s') \<Rightarrow>
          (case scan_loop fs py cbs owner repos s' of
             ((recs, out), s'') \<Rightarrow> (((repo, entry) # recs, out), s'')))"

definition scan_repos ::
  "builtins \<Rightarrow> 'w github \<Rightarrow> 'w scan_args \<Rightarrow> 'w state \<Rightarrow> ('w item list \<times> py_error option) \<times> 'w state" where
  "scan_repos py g a s =
     (if length (filter given [org_name a, user_name a, owner_name a]) \<noteq> 1
      then (([], Some AssertionError), s)
      else case resolve_owner g a s of
        (Inl e, s1) \<Rightarrow> (([], Some e), s1)
      | (Inr owner, s1) \<Rightarrow>
          (case net (get_repos owner) s1 of
             (Inl e, s2) \<Rightarrow> (([], Some e), s2)
           | (Inr listing, s2) \<Rightarrow>
               (case sorted_repos listing of
                  Inl e \<Rightarrow> (([], Some e), s2)
                | Inr repos \<Rightarrow>
                    (case filter_repos py (repo_name_pat a) repos of
                       Inl e \<Rightarrow> (([YRepos repos], Some e), s2)
                     | Inr repos' \<Rightarrow>
                         (case scan_loop (fields_or_default (fields_arg a)) py (callbacks a)
                                 owner repos' s2 of
                            ((recs, out), s3) \<Rightarrow>
                              ((YRepos repos # map (\<lambda>p. YEntry (snd p)) recs, out), s3))))))"

section \<open>A small hosting service, for concrete runs\<close>

text \<open>
  Concrete inputs on which the definitions are evaluated. The remote state is the log of
  the calls that reached the remote side. \<^verbatim>\<open>re.match\<close> is instantiated with the matcher
  for patterns without metacharacters, for which matching at the start is the prefix
  test. The owner \<^verbatim>\<open>octocat\<close> is a user (the lookup as an organization fails) with the
  repositories \<^verbatim>\<open>Beta\<close> and \<^verbatim>\<open>alpha\<close>, listed in this order; the number of issues that
  the service reports grows with the log, and the listing of commits is refused.
\<close>

definition demo_py :: builtins where
  "demo_py = \<lparr>num_str = (\<lambda>n. case n of PInt i \<Rightarrow> ''i'' | PFloat x \<Rightarrow> ''f''),
              val_str = (\<lambda>v. ''?''),
              re_match = (\<lambda>p s. Inr (take (length p) s = p))\<rparr>"

definition demo_repo :: "nat \<Rightarrow> string \<Rightarrow> int \<Rightarrow> string list repo" where
  "demo_repo i nm stars =
     \<lparr>repo_id = i,
      attrs = [(''name'', Plain (VStr nm)),
               (''stargazers_count'', Plain (VInt stars)),
               (''get_issues'', Method (\<lambda>args kwargs w.
                   (Inr (VObj [(''totalCount'', VInt (int (length w)))]), w @ [''issues'']))),
               (''get_commits'', Method (\<lambda>args kwargs w.
                   (Inl RateLimitExceededException, w @ [''commits''])))]\<rparr>"

definition demo_owner :: "string list owner" where
  "demo_owner = \<lparr>login = ''octocat'',
     get_repos = (\<lambda>w. (Inr [demo_repo 1 ''Beta'' 7, demo_repo 2 ''alpha'' 5], w @ [''repos'']))\<rparr>"

definition demo_github :: "string list github" where
  "demo_github = \<lparr>get_organization = (\<lambda>n w. (Inl UnknownObjectException, w @ [''org''])),
                   get_user = (\<lambda>n w. (Inr demo_owner, w @ [''user'']))\<rparr>"

definition demo_args :: "string list scan_args" where
  "demo_args = \<lparr>org_name = None, user_name = None, owner_name = Some ''octocat'',
                 repo_name_pat = Some ''al'', fields_arg = Some [''stargazers_count'', ''name''],
                 callbacks = None, use_tqdm = False\<rparr>"

definition init_state :: "string list state" where
  "init_state = \<lparr>world = [], cache = (\<lambda>k. None), invoked = []\<rparr>"

section \<open>Properties of the rounding to a double\<close>

lemma round_half_even_range:
  "\<lfloor>q\<rfloor> \<le> round_half_even q \<and> round_half_even q \<le> \<lfloor>q\<rfloor> + 1"
  by (simp add: round_half_even_def Let_def)

lemma round_half_even_of_int [simp]: "round_half_even (of_int k) = k"
  by (simp add: round_half_even_def Let_def)

lemma round_half_even_mono:
  assumes "a \<le> b"
  shows "round_half_even a \<le> round_half_even b"
proof (cases "\<lfloor>a\<rfloor> < \<lfloor>b\<rfloor>")
  case True
  have "round_half_even a \<le> \<lfloor>a\<rfloor> + 1" using round_half_even_range by blast
  also have "\<dots> \<le> \<lfloor>b\<rfloor>" using True by simp
  also have "\<dots> \<le> round_half_even b" using round_half_even_range by blast
  finally show ?thesis .
next
  case False
  have "\<lfloor>a\<rfloor> \<le> \<lfloor>b\<rfloor>" using assms by (rule floor_mono)
  with False have eq: "\<lfloor>a\<rfloor> = \<lfloor>b\<rfloor>" by simp
  have "a - of_int \<lfloor>b\<rfloor> \<le> b - of_int \<lfloor>b\<rfloor>" using assms by simp
  then show ?thesis
    unfolding round_half_even_def Let_def eq by auto
qed

lemma ilog2_bounds:
  assumes "0 < q"
  shows "2 powi ilog2 q \<le> q \<and> q < 2 powi (ilog2 q + 1)"
proof (cases "1 \<le> q")
  case True
  define m where "m = \<lfloor>q\<rfloor>"
  have m1: "1 \<le> m" using True by (simp add: m_def le_floor_iff)
  then have m0: "0 < m" by simp
  have b1: "1 \<le> bitlen m" using m0 by (simp add: bitlen_alt_def)
  have il: "ilog2 q = bitlen m - 1" using True by (simp add: ilog2_def m_def)
  from bitlen_bounds [OF m0] have lo: "2 ^ nat (bitlen m - 1) \<le> m" and hi: "m < 2 ^ nat (bitlen m)"
    by simp_all
  have p1: "(2::rat) powi (bitlen m - 1) = 2 ^ nat (bitlen m - 1)"
    using b1 by (simp add: power_int_def)
  have p2: "(2::rat) powi (bitlen m - 1 + 1) = 2 ^ nat (bitlen m)"
    using b1 by (simp add: power_int_def)
  have "(of_int m :: rat) \<le> q" by (simp add: m_def)
  moreover have "(2::rat) ^ nat (bitlen m - 1) \<le> of_int m"
    using lo by (metis of_int_le_iff of_int_numeral of_int_power)
  ultimately have A: "2 powi ilog2 q \<le> q" unfolding il p1 by linarith
  have "q < of_int (m + 1)" unfolding m_def by linarith
  moreover have "m + 1 \<le> 2 ^ nat (bitlen m)" using hi by simp
  then have "(of_int (m + 1) :: rat) \<le> 2 ^ nat (bitlen m)"
    by (metis of_int_le_iff of_int_numeral of_int_power)
  ultimately have B: "q < 2 powi (ilog2 q + 1)" unfolding il p2 by linarith
  show ?thesis using A B by blast
next
  case False
  define x where "x = 1 / q"
  define m where "m = \<lceil>x\<rceil> - 1"
  have q1: "q < 1" using False by simp
  have x1: "1 < x" using assms q1 by (simp add: x_def)
  have xpos: "0 < x" using x1 by simp
  have qx: "q = 1 / x" by (simp add: x_def)
  have c2: "2 \<le> \<lceil>x\<rceil>" using x1 by (simp add: le_ceiling_iff)
  then have m0: "0 < m" by (simp add: m_def)
  have mx: "of_int m < x" unfolding m_def by linarith
  have xm: "x \<le> of_int (m + 1)" unfolding m_def by simp
  have b1: "1 \<le> bitlen m" using m0 by (simp add: bitlen_alt_def)
  have il: "ilog2 q = - bitlen m" using False by (simp add: ilog2_def m_def x_def)
  from bitlen_bounds [OF m0] have lo: "2 ^ nat (bitlen m - 1) \<le> m" and hi: "m < 2 ^ nat (bitlen m)"
    by simp_all
  have p1: "(2::rat) powi (- bitlen m) = 1 / 2 ^ nat (bitlen m)"
    using b1 by (simp add: power_int_def field_simps)
  have p2: "(2::rat) powi (- bitlen m + 1) = 1 / 2 ^ nat (bitlen m - 1)"
    using b1 by (simp add: power_int_def field_simps nat_diff_distrib)
  have "m + 1 \<le> 2 ^ nat (bitlen m)" using hi by simp
  then have "(of_int (m + 1) :: rat) \<le> 2 ^ nat (bitlen m)"
    by (metis of_int_le_iff of_int_numeral of_int_power)
  with xm have "x \<le> 2 ^ nat (bitlen m)" by linarith
  then have "1 / 2 ^ nat (bitlen m) \<le> 1 / x"
    using xpos by (simp add: frac_le)
  then have A: "2 powi ilog2 q \<le> q"
    using il p1 qx by simp
  have "(2::rat) ^ nat (bitlen m - 1) \<le> of_int m"
    using lo by (metis of_int_le_iff of_int_numeral of_int_power)
  with mx have "(2::rat) ^ nat (bitlen m - 1) < x" by linarith
  then have "1 / x < 1 / 2 ^ nat (bitlen m - 1)"
    using xpos by (simp add: frac_less2)
  then have B: "q < 2 powi (ilog2 q + 1)"
    using il p2 qx by simp
  show ?thesis using A B by blast
qed

lemma pow2_less_imp: "(2::rat) powi a < 2 powi b \<Longrightarrow> a < b"
proof (rule ccontr)
  assume less: "(2::rat) powi a < 2 powi b" and "\<not> a < b"
  then have "b \<le> a" by simp
  then have "(2::rat) powi b \<le> 2 powi a" by (intro power_int_increasing) simp_all
  with less show False by simp
qed

lemma ilog2_mono:
  assumes "0 < a" and "a \<le> b"
  shows "ilog2 a \<le> ilog2 b"
proof -
  have b0: "0 < b" using assms by simp
  have "2 powi ilog2 a \<le> a" using ilog2_bounds [OF assms(1)] by blast
  also have "a \<le> b" by fact
  also have "b < 2 powi (ilog2 b + 1)" using ilog2_bounds [OF b0] by blast
  finally have "(2::rat) powi ilog2 a < 2 powi (ilog2 b + 1)" .
  then have "ilog2 a < ilog2 b + 1"
    by (rule pow2_less_imp)
  then show ?thesis by simp
qed

text \<open>For a positive value: the exponent, the scaled value and the integer significand.\<close>

lemma fl_pos:
  "0 < q \<Longrightarrow> fl q = of_int (round_half_even (q / 2 powi max (- 1074) (ilog2 q - 52)))
                    * 2 powi max (- 1074) (ilog2 q - 52)"
  by (simp add: fl_def Let_def)

lemma scaled_less:
  assumes "0 < q"
  shows "q / 2 powi max (- 1074) (ilog2 q - 52) < 2 ^ 53"
proof -
  define e where "e = max (- 1074) (ilog2 q - 52)"
  have pe: "(0::rat) < 2 powi e" by (simp add: zero_less_power_int)
  have "q < 2 powi (ilog2 q + 1)" using ilog2_bounds [OF assms] by blast
  also have "(2::rat) powi (ilog2 q + 1) \<le> 2 powi (e + 53)"
    by (rule power_int_increasing) (simp_all add: e_def)
  also have "(2::rat) powi (e + 53) = 2 ^ 53 * 2 powi e"
    by (simp add: power_int_add)
  finally have "q < 2 ^ 53 * 2 powi e" .
  then show ?thesis unfolding e_def [symmetric] using pe by (simp add: pos_divide_less_eq)
qed

lemma scaled_ge:
  assumes "0 < q" and "- 1074 < ilog2 q - 52"
  shows "2 ^ 52 \<le> q / 2 powi max (- 1074) (ilog2 q - 52)"
proof -
  define e where "e = max (- 1074) (ilog2 q - 52)"
  have e: "e = ilog2 q - 52" using assms(2) by (simp add: e_def)
  have pe: "(0::rat) < 2 powi e" by (simp add: zero_less_power_int)
  have "(2::rat) ^ 52 * 2 powi e = 2 powi (e + 52)" by (simp add: power_int_add)
  also have "\<dots> = 2 powi ilog2 q" by (simp add: e)
  also have "\<dots> \<le> q" using ilog2_bounds [OF assms(1)] by blast
  finally have "(2::rat) ^ 52 * 2 powi e \<le> q" .
  then show ?thesis unfolding e_def [symmetric] using pe by (simp add: pos_le_divide_eq)
qed

lemma fl_nonneg: "0 \<le> q \<Longrightarrow> 0 \<le> fl q"
proof (cases "q = 0")
  case True
  then show ?thesis by (simp add: fl_def)
next
  case False
  assume "0 \<le> q"
  with False have q: "0 < q" by simp
  define e where "e = max (- 1074) (ilog2 q - 52)"
  have "0 \<le> q / 2 powi e" using q by (simp add: zero_less_power_int)
  then have "round_half_even 0 \<le> round_half_even (q / 2 powi e)" by (rule round_half_even_mono)
  moreover have "round_half_even 0 = 0" using round_half_even_of_int [of 0] by simp
  ultimately have "0 \<le> round_half_even (q / 2 powi e)" by simp
  then show ?thesis unfolding fl_pos [OF q] e_def [symmetric]
    by (simp add: zero_less_power_int)
qed

lemma fl_mono_pos:
  assumes "0 < a" and "a \<le> b"
  shows "fl a \<le> fl b"
proof -
  have b0: "0 < b" using assms by simp
  define ea where "ea = max (- 1074) (ilog2 a - 52)"
  define eb where "eb = max (- 1074) (ilog2 b - 52)"
  define ma where "ma = round_half_even (a / 2 powi ea)"
  define mb where "mb = round_half_even (b / 2 powi eb)"
  have fa: "fl a = of_int ma * 2 powi ea" unfolding ma_def ea_def by (rule fl_pos [OF assms(1)])
  have fb: "fl b = of_int mb * 2 powi eb" unfolding mb_def eb_def by (rule fl_pos [OF b0])
  have le: "ea \<le> eb" using ilog2_mono [OF assms] by (simp add: ea_def eb_def)
  have pa: "(0::rat) < 2 powi ea" by (simp add: zero_less_power_int)
  show ?thesis
  proof (cases "ea = eb")
    case True
    have "a / 2 powi ea \<le> b / 2 powi ea" using assms(2) pa by (simp add: divide_right_mono)
    then have "ma \<le> mb" unfolding ma_def mb_def True [symmetric] by (rule round_half_even_mono)
    then have "(of_int ma :: rat) \<le> of_int mb" by simp
    then show ?thesis unfolding fa fb True [symmetric] using pa by (simp add: mult_right_mono)
  next
    case False
    with le have lt: "ea + 1 \<le> eb" by simp
    then have "- 1074 < ilog2 b - 52" by (auto simp: ea_def eb_def)
    from scaled_ge [OF b0 this] have "(2::rat) ^ 52 \<le> b / 2 powi eb" by (simp add: eb_def)
    then have "round_half_even (of_int (2 ^ 52)) \<le> mb"
      unfolding mb_def by (intro round_half_even_mono) simp
    then have mb: "(2::rat) ^ 52 \<le> of_int mb"
      by (metis round_half_even_of_int of_int_le_iff of_int_numeral of_int_power)
    have "a / 2 powi ea \<le> 2 ^ 53" using scaled_less [OF assms(1)] by (simp add: ea_def)
    then have "ma \<le> round_half_even (of_int (2 ^ 53))"
      unfolding ma_def by (intro round_half_even_mono) simp
    then have ma: "(of_int ma :: rat) \<le> 2 ^ 53"
      by (metis round_half_even_of_int of_int_le_iff of_int_numeral of_int_power)
    have "fl a \<le> 2 ^ 53 * 2 powi ea" unfolding fa using ma pa by (simp add: mult_right_mono)
    also have "\<dots> = 2 ^ 52 * 2 powi (ea + 1)" by (simp add: power_int_add)
    also have "\<dots> \<le> 2 ^ 52 * 2 powi eb"
      using lt by (simp add: power_int_increasing)
    also have "\<dots> \<le> fl b" unfolding fb using mb by (simp add: mult_right_mono zero_less_power_int)
    finally show ?thesis .
  qed
qed

lemma fl_of_int:
  assumes "0 \<le> k" and "k < 2 ^ 53"
  shows "fl (of_int k) = of_int k"
proof (cases "k = 0")
  case True
  then show ?thesis by (simp add: fl_def)
next
  case False
  with assms have k0: "0 < k" by simp
  then have q0: "(0::rat) < of_int k" by simp
  define i where "i = ilog2 (of_int k)"
  have "1 \<le> k" using k0 by simp
  then have k1: "(1::rat) \<le> of_int k" by simp
  have "i = bitlen k - 1" using k1 by (simp add: i_def ilog2_def)
  moreover have "1 \<le> bitlen k" using k0 by (simp add: bitlen_alt_def)
  ultimately have i0: "0 \<le> i" by simp
  have "(2::rat) powi i \<le> of_int k" using ilog2_bounds [OF q0] by (simp add: i_def)
  also have "(of_int k :: rat) < 2 ^ 53" using assms(2) by (metis of_int_less_iff of_int_numeral of_int_power)
  also have "(2::rat) ^ 53 = 2 powi 53" by simp
  finally have "i < 53" by (rule pow2_less_imp)
  then have e: "max (- 1074) (i - 52) = i - 52" and en: "i - 52 \<le> 0" using i0 by simp_all
  define n where "n = nat (52 - i)"
  have pw: "(2::rat) powi (i - 52) = 1 / 2 ^ n"
    using en by (simp add: power_int_def n_def field_simps)
  have "of_int k / (2::rat) powi (i - 52) = of_int (k * 2 ^ n)" by (simp add: pw)
  then have "round_half_even (of_int k / 2 powi (i - 52)) = k * 2 ^ n"
    using round_half_even_of_int by presburger
  then show ?thesis
    unfolding fl_pos [OF q0] i_def [symmetric] e by (simp add: pw)
qed

lemma fl_0 [simp]: "fl 0 = 0"
  by (simp add: fl_def)

lemma fl_1 [simp]: "fl 1 = 1"
  using fl_of_int [of 1] by simp

lemma fl_unit_interval:
  assumes "0 \<le> q" and "q \<le> 1"
  shows "0 \<le> fl q \<and> fl q \<le> 1"
proof (cases "q = 0")
  case True
  then show ?thesis by simp
next
  case False
  with assms have "0 < q" by simp
  from fl_mono_pos [OF this assms(2)] fl_nonneg [OF assms(1)] show ?thesis by simp
qed

lemma fl_scaled_bounds:
  assumes "0 \<le> c" and "c \<le> 1" and "0 \<le> h" and "h < 2 ^ 53"
  shows "0 \<le> fl (c * of_int h) \<and> fl (c * of_int h) \<le> of_int h"
proof (cases "c * of_int h = 0")
  case True
  show ?thesis unfolding True using assms(3) by simp
next
  case False
  have nn: "0 \<le> c * (of_int h :: rat)" using assms(1,3) by simp
  with False have pos: "0 < c * (of_int h :: rat)" by (rule order_neq_le_trans [OF not_sym])
  have hr: "0 \<le> (of_int h :: rat)" using assms(3) by simp
  have "c * (of_int h :: rat) \<le> of_int h" by (rule mult_left_le_one_le [OF hr assms(1,2)])
  from fl_mono_pos [OF pos this] fl_of_int [OF assms(3,4)] fl_nonneg [OF nn]
  show ?thesis by simp
qed

section \<open>Properties of the sparkline formatter\<close>

lemma ebind_Inr [simp]: "ebind (Inr x) f = f x"
  by (simp add: ebind_def)

lemma ebind_Inl [simp]: "ebind (Inl e) f = Inl e"
  by (simp add: ebind_def)

lemma emap_all_Inr:
  "(\<And>x. x \<in> set xs \<Longrightarrow> f x = Inr (g x)) \<Longrightarrow> emap f xs = Inr (map g xs)"
  by (induction xs) simp_all

lemma py_min_Min: "data \<noteq> [] \<Longrightarrow> py_min data = Inr (Min (set data))"
proof (cases data)
  case (Cons x xs)
  then show ?thesis using Min.set_eq_fold [of x xs] by simp
qed simp

lemma py_max_Max: "data \<noteq> [] \<Longrightarrow> py_max data = Inr (Max (set data))"
proof (cases data)
  case (Cons x xs)
  then show ?thesis using Max.set_eq_fold [of x xs] by simp
qed simp

lemma enumerate_py_Cons: "enumerate_py (x # xs) = (0, x) # zip [Suc 0 ..< Suc (length xs)] xs"
  unfolding enumerate_py_def
  by (simp add: upt_conv_Cons del: upt_Suc)

lemma Max_pos_of_nonconstant:
  assumes "data \<noteq> []" and "\<forall>x\<in>set data. (0::int) \<le> x" and "Min (set data) \<noteq> Max (set data)"
  shows "0 < Max (set data)"
proof -
  have fin: "finite (set data)" and ne: "set data \<noteq> {}" using assms(1) by simp_all
  have "0 \<le> Min (set data)" using assms(2) fin ne by simp
  moreover have "Min (set data) \<le> hd data" using fin assms(1) by (simp add: Min_le)
  moreover have "hd data \<le> Max (set data)" using fin assms(1) by (simp add: Max_ge)
  ultimately show ?thesis using assms(3) by linarith
qed

lemma mk_float_False [simp]: "mk_float False q = Fl (fl q)"
  by (simp add: mk_float_def Let_def)

lemma fval_mk_float [simp]: "fval (mk_float neg q) = fl q"
  by (simp add: mk_float_def Let_def)

lemma py_truediv_index:
  "n \<noteq> 0 \<Longrightarrow> py_truediv (int i) (int n) = Inr (Fl (fl (of_nat i / of_nat n)))"
  by (simp add: py_truediv_def)

lemma x_position:
  "fmul (Fl (fl (of_nat i / of_nat n))) (to_float w)
     = mk_float (fl (of_int w) < 0) (fl (of_nat i / of_nat n) * fl (of_int w))"
proof -
  have "0 \<le> fl (of_nat i / of_nat n)" by (rule fl_nonneg) simp
  then have "\<not> fl (of_nat i / of_nat n) < 0" by simp
  then show ?thesis by (simp add: fmul_def to_float_def)
qed

lemma join_snoc: "join sep (xs @ [x]) = (if xs = [] then x else join sep xs @ sep @ x)"
  by (induction sep xs rule: join.induct) simp_all

lemma join_upt:
  "join sep (map g [0 ..< n]) = concat (map (\<lambda>i. (if i = 0 then [] else sep) @ g i) [0 ..< n])"
proof (induction n)
  case 0
  then show ?case by simp
next
  case (Suc n)
  show ?case
  proof (cases "n = 0")
    case True
    then show ?thesis by simp
  next
    case False
    then show ?thesis using Suc by (simp add: join_snoc)
  qed
qed

lemma map_enumerate_py:
  "map f (enumerate_py xs) = map (\<lambda>i. f (i, xs ! i)) [0 ..< length xs]"
  unfolding enumerate_py_def by (rule nth_equalityI) simp_all

lemma emap_enumerate_py:
  assumes "\<And>i. i < length xs \<Longrightarrow> f (i, xs ! i) = Inr (g i)"
  shows "emap f (enumerate_py xs) = Inr (map g [0 ..< length xs])"
proof -
  have "emap f (enumerate_py xs) = Inr (map (\<lambda>p. g (fst p)) (enumerate_py xs))"
  proof (rule emap_all_Inr)
    fix p assume "p \<in> set (enumerate_py xs)"
    then obtain i where "i < length xs" "p = (i, xs ! i)"
      unfolding enumerate_py_def by (auto simp: set_zip)
    then show "f p = Inr (g (fst p))" using assms by simp
  qed
  then show ?thesis by (simp add: map_enumerate_py)
qed

text \<open>The markup that is returned for given coordinates (source lines 32 to 40).\<close>

lemma sparkline_svg_points:
  assumes "sparkline_points data (param_get (p_width ps) (int (length data)))
             (param_get (p_height ps) 10) = Inr (map pt [0 ..< n])"
  shows "sparkline_svg ns data add_embed ps =
     Inr ((if add_embed then ''<embed>'' else [])
          @ ''<svg height=\"'' @ ns (PInt (param_get (p_height ps) 10))
          @ ''\" width=\"'' @ ns (PInt (param_get (p_width ps) (int (length data))))
          @ ''\"><polyline points=\"''
          @ concat (map (\<lambda>i. (if i = 0 then [] else '' '')
                          @ ns (PFloat (fst (pt i))) @ '','' @ ns (snd (pt i))) [0 ..< n])
          @ ''\" style=\"fill: none; stroke: '' @ param_get (p_stroke ps) ''#8cc665''
          @ ''; stroke-width: '' @ ns (PInt (param_get (p_weight ps) 2)) @ ''\" /></svg>''
          @ (if add_embed then ''</embed>'' else []))"
proof -
  have "join '' '' (map (point_str ns) (map pt [0 ..< n]))
      = join '' '' (map (\<lambda>i. ns (PFloat (fst (pt i))) @ '','' @ ns (snd (pt i))) [0 ..< n])"
    by (simp add: point_str_def comp_def)
  also have "\<dots> = concat (map (\<lambda>i. (if i = 0 then [] else '' '')
                          @ ns (PFloat (fst (pt i))) @ '','' @ ns (snd (pt i))) [0 ..< n])"
    by (rule join_upt)
  finally show ?thesis
    using assms by (simp add: sparkline_svg_def svg_markup_def Let_def)
qed

text \<open>
  Claim C9. For the empty input sequence \<^verbatim>\<open>sparkline_svg\<close> does not return markup: the
  call fails, because \<^verbatim>\<open>min\<close> of an empty sequence raises \<^verbatim>\<open>ValueError\<close>. This holds for
  every choice of the keyword parameters and of \<^verbatim>\<open>add_embed\<close>.
\<close>

theorem sparkline_svg_empty_raises:
  "sparkline_svg ns [] add_embed ps = Inl ValueError"
  by (simp add: sparkline_svg_def sparkline_points_def Let_def)

text \<open>
  Claim C10. The scaling branch divides by the maximum of the input, not by its range:
  for every input that is not constant and whose maximum is 0 (so that it has a negative
  value), the call raises \<^verbatim>\<open>ZeroDivisionError\<close> instead of returning markup.
\<close>

theorem sparkline_svg_max_zero_raises:
  assumes "data \<noteq> []" and "Max (set data) = 0" and "Min (set data) \<noteq> 0"
  shows "sparkline_svg ns data add_embed ps = Inl ZeroDivisionError"
proof -
  obtain x xs where d: "data = x # xs" using assms(1) by (cases data) auto
  have "scaled_point (length data) w h 0 (0, x) = Inl ZeroDivisionError" for w h
    by (simp add: scaled_point_def py_truediv_def d Let_def)
  then have "emap (scaled_point (length data) w h 0) (enumerate_py data) = Inl ZeroDivisionError"
    for w h
    by (simp add: d enumerate_py_Cons)
  then have "sparkline_points data w h = Inl ZeroDivisionError" for w h
    using assms by (simp add: sparkline_points_def py_min_Min py_max_Max)
  then show ?thesis by (simp add: sparkline_svg_def Let_def)
qed

theorem sparkline_svg_max_zero_raises_witness:
  "[- 2, 0] \<noteq> [] \<and> Max (set [- 2, 0::int]) = 0 \<and> Min (set [- 2, 0::int]) \<noteq> 0
   \<and> sparkline_svg (\<lambda>n. ''#'') [- 2, 0] False no_params = Inl ZeroDivisionError"
  using sparkline_svg_max_zero_raises [of "[- 2, 0]" "\<lambda>n. ''#''" False no_params] by simp

text \<open>
  Claim C8. For every non-empty constant input sequence \<^verbatim>\<open>sparkline_svg\<close> returns markup
  (no division by zero, which would be the result \<open>Inl ZeroDivisionError\<close>). The markup is
  the svg element with one polyline whose \<^verbatim>\<open>points\<close> attribute has exactly one point for
  each index of the input, separated by blanks: the x coordinate of point \<open>i\<close> is the
  float \<^verbatim>\<open>i / len(data) * width\<close>, and the y coordinate of every point is the int
  \<^verbatim>\<open>height - 1\<close>, one unit above the bottom edge.
\<close>

theorem sparkline_svg_constant_flat:
  assumes "data \<noteq> []" and "\<forall>x\<in>set data. x = c"
  shows "sparkline_svg ns data add_embed ps =
     Inr ((if add_embed then ''<embed>'' else [])
          @ ''<svg height=\"'' @ ns (PInt (param_get (p_height ps) 10))
          @ ''\" width=\"'' @ ns (PInt (param_get (p_width ps) (int (length data))))
          @ ''\"><polyline points=\"''
          @ concat (map (\<lambda>i. (if i = 0 then [] else '' '')
                @ ns (PFloat (mk_float (fl (of_int (param_get (p_width ps) (int (length data)))) < 0)
                        (fl (of_nat i / of_nat (length data))
                           * fl (of_int (param_get (p_width ps) (int (length data)))))))
                @ '','' @ ns (PInt (param_get (p_height ps) 10 - 1))) [0 ..< length data])
          @ ''\" style=\"fill: none; stroke: '' @ param_get (p_stroke ps) ''#8cc665''
          @ ''; stroke-width: '' @ ns (PInt (param_get (p_weight ps) 2)) @ ''\" /></svg>''
          @ (if add_embed then ''</embed>'' else []))"
proof -
  define w where "w = param_get (p_width ps) (int (length data))"
  define h where "h = param_get (p_height ps) 10"
  define pt :: "nat \<Rightarrow> pyfloat \<times> pynum" where
    "pt = (\<lambda>i. (mk_float (fl (of_int w) < 0) (fl (of_nat i / of_nat (length data)) * fl (of_int w)),
                PInt (h - 1)))"
  have eq: "Min (set data) = Max (set data)"
  proof -
    have "set data = {c}" using assms by (cases data) auto
    then show ?thesis by simp
  qed
  have "flat_point (length data) w h (i, data ! i) = Inr (pt i)" for i
    using assms(1) by (simp add: flat_point_def py_truediv_index x_position pt_def)
  then have "emap (flat_point (length data) w h) (enumerate_py data)
               = Inr (map pt [0 ..< length data])"
    by (intro emap_enumerate_py) simp
  then have pts: "sparkline_points data w h = Inr (map pt [0 ..< length data])"
    using assms(1) eq by (simp add: sparkline_points_def py_min_Min py_max_Max)
  show ?thesis
    using sparkline_svg_points [OF pts [unfolded w_def h_def], of ns add_embed]
    by (simp add: pt_def w_def h_def)
qed

theorem sparkline_svg_constant_flat_witness:
  "[3, 3, 3] \<noteq> [] \<and> list_all (\<lambda>x. x = 3) [3, 3, 3::int]
   \<and> sparkline_svg (num_str demo_py) [3, 3, 3] False no_params =
       Inr ''<svg height=\"i\" width=\"i\"><polyline points=\"f,i f,i f,i\" style=\"fill: none; stroke: #8cc665; stroke-width: i\" /></svg>''"
  using sparkline_svg_constant_flat [of "[3, 3, 3]" 3 "num_str demo_py" False no_params]
  by (simp add: demo_py_def no_params_def param_get_def)

lemma y_position:
  assumes "0 \<le> v" and "v \<le> mx" and "0 < mx" and "0 \<le> h" and "h < 2 ^ 53"
  shows "py_truediv (mx - v) mx = Inr (Fl (fl (of_int (mx - v) / of_int mx)))"
    and "fmul (Fl (fl (of_int (mx - v) / of_int mx))) (to_float h)
           = Fl (fl (fl (of_int (mx - v) / of_int mx) * of_int h))"
    and "0 \<le> fl (fl (of_int (mx - v) / of_int mx) * of_int h)"
    and "fl (fl (of_int (mx - v) / of_int mx) * of_int h) \<le> of_int h"
    and "v = mx \<Longrightarrow> fl (fl (of_int (mx - v) / of_int mx) * of_int h) = 0"
    and "v = 0 \<Longrightarrow> fl (fl (of_int (mx - v) / of_int mx) * of_int h) = of_int h"
proof -
  define q :: rat where "q = of_int (mx - v) / of_int mx"
  have q0: "0 \<le> q" unfolding q_def using assms(2,3) by simp
  have q1: "q \<le> 1" unfolding q_def using assms(1,3) by simp
  have c0: "0 \<le> fl q" and c1: "fl q \<le> 1" using fl_unit_interval [OF q0 q1] by simp_all
  have fh: "fl (of_int h) = of_int h" using assms(4,5) by (rule fl_of_int)
  have "\<not> mx - v < 0" "\<not> mx < 0" using assms(2,3) by simp_all
  then show "py_truediv (mx - v) mx = Inr (Fl (fl (of_int (mx - v) / of_int mx)))"
    using assms(3) by (simp add: py_truediv_def)
  have "\<not> fl q < 0" using c0 by simp
  moreover have "\<not> (of_int h :: rat) < 0" using assms(4) by simp
  ultimately show "fmul (Fl (fl (of_int (mx - v) / of_int mx))) (to_float h)
           = Fl (fl (fl (of_int (mx - v) / of_int mx) * of_int h))"
    unfolding q_def [symmetric] by (simp add: fmul_def to_float_def fh)
  from fl_scaled_bounds [OF c0 c1 assms(4,5)]
  show "0 \<le> fl (fl (of_int (mx - v) / of_int mx) * of_int h)"
    and "fl (fl (of_int (mx - v) / of_int mx) * of_int h) \<le> of_int h"
    unfolding q_def by simp_all
  show "v = mx \<Longrightarrow> fl (fl (of_int (mx - v) / of_int mx) * of_int h) = 0"
    by simp
  show "v = 0 \<Longrightarrow> fl (fl (of_int (mx - v) / of_int mx) * of_int h) = of_int h"
    using assms(3) fh by simp
qed

text \<open>
  Claim C5 as stated fails. On the input 1, 2 with height 10 the minimum 1 is placed at
  y = 5, which is neither edge; on the input -1, 1 the minimum is placed at y = 20, outside
  the range from 0 to the height 10.
\<close>

theorem sparkline_min_not_at_edge_counterexample:
  "sparkline_points [1, 2] 2 10 = Inr [(Fl 0, PFloat (Fl 5)), (Fl 1, PFloat (Fl 0))]
   \<and> sparkline_points [- 1, 1] 2 10 = Inr [(Fl 0, PFloat (Fl 20)), (Fl 1, PFloat (Fl 0))]"
  by code_simp

text \<open>
  Claim C5, as amended. The scaling branch computes \<^verbatim>\<open>(max_ - val)/max_*height\<close>: the
  values are scaled from zero, not from the minimum. For every input that is not constant
  and has no negative value (so that its maximum is positive), and a width and a height
  from 0 to below \<open>2 ^ 53\<close>: the call returns the svg element with one polyline whose
  \<^verbatim>\<open>points\<close> attribute has one point for each index of the input, separated by blanks;
  the x coordinate of point \<open>i\<close> is the float \<^verbatim>\<open>i / len(data) * width\<close> and its y
  coordinate the float \<^verbatim>\<open>(max_ - val)/max_*height\<close>, each operation rounded to a double;
  every x coordinate lies between 0 and the width and every y coordinate between 0 and
  the height; an element equal to the maximum is at y = 0, the top edge, and an element
  equal to 0 is at y = height, the bottom edge. So the minimum is at the bottom edge when
  it is 0.
\<close>

theorem sparkline_svg_scales_from_zero:
  assumes "data \<noteq> []" and "\<forall>x\<in>set data. 0 \<le> x" and "Min (set data) \<noteq> Max (set data)"
    and "0 \<le> param_get (p_width ps) (int (length data))"
    and "param_get (p_width ps) (int (length data)) < 2 ^ 53"
    and "0 \<le> param_get (p_height ps) 10" and "param_get (p_height ps) 10 < 2 ^ 53"
  shows "sparkline_svg ns data add_embed ps =
     Inr ((if add_embed then ''<embed>'' else [])
          @ ''<svg height=\"'' @ ns (PInt (param_get (p_height ps) 10))
          @ ''\" width=\"'' @ ns (PInt (param_get (p_width ps) (int (length data))))
          @ ''\"><polyline points=\"''
          @ concat (map (\<lambda>i. (if i = 0 then [] else '' '')
                @ ns (PFloat (Fl (fl (fl (of_nat i / of_nat (length data))
                                       * of_int (param_get (p_width ps) (int (length data)))))))
                @ '',''
                @ ns (PFloat (Fl (fl (fl (of_int (Max (set data) - data ! i) / of_int (Max (set data)))
                                       * of_int (param_get (p_height ps) 10))))))
              [0 ..< length data])
          @ ''\" style=\"fill: none; stroke: '' @ param_get (p_stroke ps) ''#8cc665''
          @ ''; stroke-width: '' @ ns (PInt (param_get (p_weight ps) 2)) @ ''\" /></svg>''
          @ (if add_embed then ''</embed>'' else []))
   \<and> (\<forall>i<length data.
          0 \<le> fl (fl (of_nat i / of_nat (length data))
                     * of_int (param_get (p_width ps) (int (length data))))
        \<and> fl (fl (of_nat i / of_nat (length data))
                 * of_int (param_get (p_width ps) (int (length data))))
            \<le> of_int (param_get (p_width ps) (int (length data)))
        \<and> 0 \<le> fl (fl (of_int (Max (set data) - data ! i) / of_int (Max (set data)))
                     * of_int (param_get (p_height ps) 10))
        \<and> fl (fl (of_int (Max (set data) - data ! i) / of_int (Max (set data)))
                 * of_int (param_get (p_height ps) 10)) \<le> of_int (param_get (p_height ps) 10)
        \<and> (data ! i = Max (set data) \<longrightarrow>
              fl (fl (of_int (Max (set data) - data ! i) / of_int (Max (set data)))
                    * of_int (param_get (p_height ps) 10)) = 0)
        \<and> (data ! i = 0 \<longrightarrow>
              fl (fl (of_int (Max (set data) - data ! i) / of_int (Max (set data)))
                    * of_int (param_get (p_height ps) 10)) = of_int (param_get (p_height ps) 10)))"
proof -
  define w where "w = param_get (p_width ps) (int (length data))"
  define h where "h = param_get (p_height ps) 10"
  define mx where "mx = Max (set data)"
  define n where "n = length data"
  define x :: "nat \<Rightarrow> rat" where "x = (\<lambda>i. fl (fl (of_nat i / of_nat n) * of_int w))"
  define y :: "nat \<Rightarrow> rat" where "y = (\<lambda>i. fl (fl (of_int (mx - data ! i) / of_int mx) * of_int h))"
  define pt :: "nat \<Rightarrow> pyfloat \<times> pynum" where "pt = (\<lambda>i. (Fl (x i), PFloat (Fl (y i))))"
  have mx_pos: "0 < mx" unfolding mx_def using assms(1-3) by (rule Max_pos_of_nonconstant)
  have w0: "0 \<le> w" and w1: "w < 2 ^ 53" using assms(4,5) by (simp_all add: w_def)
  have h0: "0 \<le> h" and h1: "h < 2 ^ 53" using assms(6,7) by (simp_all add: h_def)
  have n_pos: "n \<noteq> 0" using assms(1) by (simp add: n_def)
  have fw: "fl (of_int w) = of_int w" using w0 w1 by (rule fl_of_int)
  have xp: "fmul (Fl (fl (of_nat i / of_nat n))) (to_float w) = Fl (x i)" for i
  proof -
    have "\<not> (of_int w :: rat) < 0" using w0 by simp
    then show ?thesis unfolding x_position fw x_def by simp
  qed
  have rng: "0 \<le> data ! i \<and> data ! i \<le> mx" if "i < length data" for i
  proof -
    have mem: "data ! i \<in> set data" using that by simp
    then show ?thesis using assms(2) by (simp add: mx_def)
  qed
  have pt_eq: "scaled_point n w h mx (i, data ! i) = Inr (pt i)" if "i < length data" for i
  proof -
    from rng [OF that] have v0: "0 \<le> data ! i" and v1: "data ! i \<le> mx" by simp_all
    note yp = y_position [OF v0 v1 mx_pos h0 h1]
    show ?thesis
      unfolding scaled_point_def pt_def y_def fst_conv snd_conv py_truediv_index [OF n_pos]
        yp(1) ebind_Inr Let_def xp yp(2)
      by (rule refl)
  qed
  have "emap (scaled_point n w h mx) (enumerate_py data) = Inr (map pt [0 ..< length data])"
    by (rule emap_enumerate_py) (rule pt_eq)
  then have pts: "sparkline_points data w h = Inr (map pt [0 ..< length data])"
    using assms(1,3) by (simp add: sparkline_points_def py_min_Min py_max_Max mx_def n_def)
  have markup: "sparkline_svg ns data add_embed ps =
     Inr ((if add_embed then ''<embed>'' else [])
          @ ''<svg height=\"'' @ ns (PInt h) @ ''\" width=\"'' @ ns (PInt w)
          @ ''\"><polyline points=\"''
          @ concat (map (\<lambda>i. (if i = 0 then [] else '' '')
                          @ ns (PFloat (fst (pt i))) @ '','' @ ns (snd (pt i))) [0 ..< length data])
          @ ''\" style=\"fill: none; stroke: '' @ param_get (p_stroke ps) ''#8cc665''
          @ ''; stroke-width: '' @ ns (PInt (param_get (p_weight ps) 2)) @ ''\" /></svg>''
          @ (if add_embed then ''</embed>'' else []))"
    using sparkline_svg_points [OF pts [unfolded w_def h_def], of ns add_embed]
    by (simp add: w_def h_def)
  have every: "\<forall>i<length data. 0 \<le> x i \<and> x i \<le> of_int w \<and> 0 \<le> y i \<and> y i \<le> of_int h
        \<and> (data ! i = mx \<longrightarrow> y i = 0) \<and> (data ! i = 0 \<longrightarrow> y i = of_int h)"
  proof (intro allI impI)
    fix i assume i: "i < length data"
    from rng [OF i] have v0: "0 \<le> data ! i" and v1: "data ! i \<le> mx" by simp_all
    note yp = y_position [OF v0 v1 mx_pos h0 h1]
    have q0: "(0::rat) \<le> of_nat i / of_nat n" by simp
    have q1: "(of_nat i :: rat) / of_nat n \<le> 1" using i n_pos by (simp add: n_def)
    have c: "0 \<le> fl (of_nat i / of_nat n) \<and> fl (of_nat i / of_nat n) \<le> 1"
      using fl_unit_interval [OF q0 q1] .
    have xb: "0 \<le> x i \<and> x i \<le> of_int w"
      unfolding x_def using fl_scaled_bounds [OF c [THEN conjunct1] c [THEN conjunct2] w0 w1] .
    show "0 \<le> x i \<and> x i \<le> of_int w \<and> 0 \<le> y i \<and> y i \<le> of_int h
        \<and> (data ! i = mx \<longrightarrow> y i = 0) \<and> (data ! i = 0 \<longrightarrow> y i = of_int h)"
      unfolding y_def using xb yp(3) yp(4) yp(5) yp(6) unfolding y_def by blast
  qed
  show ?thesis
    using markup every unfolding pt_def x_def y_def fst_conv snd_conv w_def h_def mx_def n_def
    by (intro conjI)
qed

theorem sparkline_svg_scales_from_zero_witness:
  "[0, 1, 2] \<noteq> [] \<and> list_all (\<lambda>x. 0 \<le> x) [0, 1, 2::int]
   \<and> Min (set [0, 1, 2::int]) \<noteq> Max (set [0, 1, 2])
   \<and> 0 \<le> param_get (p_width no_params) (int (length [0, 1, 2::int]))
   \<and> param_get (p_width no_params) (int (length [0, 1, 2::int])) < 2 ^ 53
   \<and> 0 \<le> param_get (p_height no_params) 10 \<and> param_get (p_height no_params) 10 < (2::int) ^ 53
   \<and> sparkline_svg (num_str demo_py) [0, 1, 2] False no_params =
       Inr ''<svg height=\"i\" width=\"i\"><polyline points=\"f,f f,f f,f\" style=\"fill: none; stroke: #8cc665; stroke-width: i\" /></svg>''
   \<and> fl (fl (of_int (2 - 0) / of_int 2) * of_int 10) = 10
   \<and> fl (fl (of_int (2 - 2) / of_int 2) * of_int 10) = 0"
proof -
  have h1: "[0, 1, 2::int] \<noteq> []" by simp
  have h2: "\<forall>x\<in>set [0, 1, 2::int]. 0 \<le> x" by simp
  have h3: "Min (set [0, 1, 2::int]) \<noteq> Max (set [0, 1, 2])" by simp
  have w4: "0 \<le> param_get (p_width no_params) (int (length [0, 1, 2::int]))"
    by (simp add: no_params_def param_get_def)
  have w5: "param_get (p_width no_params) (int (length [0, 1, 2::int])) < 2 ^ 53"
    by (simp add: no_params_def param_get_def)
  have h4: "0 \<le> param_get (p_height no_params) 10" by (simp add: no_params_def param_get_def)
  have h5: "param_get (p_height no_params) 10 < (2::int) ^ 53"
    by (simp add: no_params_def param_get_def)
  have mx: "Max (set [0, 1, 2::int]) = 2" by simp
  have ht: "param_get (p_height no_params) 10 = (10::int)" by (simp add: no_params_def param_get_def)
  note T = sparkline_svg_scales_from_zero [OF h1 h2 h3 w4 w5 h4 h5, of "num_str demo_py" False]
  from T have markup: "sparkline_svg (num_str demo_py) [0, 1, 2] False no_params =
       Inr ''<svg height=\"i\" width=\"i\"><polyline points=\"f,f f,f f,f\" style=\"fill: none; stroke: #8cc665; stroke-width: i\" /></svg>''"
    by (simp add: demo_py_def no_params_def param_get_def)
  from T have every: "\<forall>i<length [0, 1, 2::int].
        (([0, 1, 2::int]) ! i = 2 \<longrightarrow>
              fl (fl (of_int (2 - [0, 1, 2] ! i) / of_int 2) * of_int 10) = 0)
        \<and> (([0, 1, 2::int]) ! i = 0 \<longrightarrow>
              fl (fl (of_int (2 - [0, 1, 2] ! i) / of_int 2) * of_int 10) = of_int 10)"
    unfolding mx ht by blast
  from every [rule_format, of 0] have y0: "fl (fl (of_int (2 - 0) / of_int 2) * of_int 10) = 10"
    by simp
  from every [rule_format, of 2] have y2: "fl (fl (of_int (2 - 2) / of_int 2) * of_int 10) = 0"
    by simp
  show ?thesis using h1 h3 w4 w5 h4 h5 markup y0 y2 by simp
qed

section \<open>Properties of the memoized resolver\<close>

lemma get_repo_attr_keeps_entry:
  assumes "cache s k = Some v"
  shows "cache (snd (get_repo_attr r n t a kw s)) k = Some v"
proof (cases "cache s (repo_id r, n, t, a, kw)")
  case None
  then have "k \<noteq> (repo_id r, n, t, a, kw)" using assms by auto
  then show ?thesis using None assms
    by (auto simp: get_repo_attr_def Let_def split: prod.splits sum.splits)
next
  case (Some u)
  then show ?thesis using assms by (simp add: get_repo_attr_def Let_def)
qed

text \<open>
  Claim C1 as stated fails for an accessor that raises. The listing of commits of the
  repository \<^verbatim>\<open>Beta\<close> is refused: the first call raises and stores nothing, and the second
  call with the identical signature runs the body again, so that the body has run twice
  and the remote side was called twice.
\<close>

theorem get_repo_attr_retry_counterexample:
  "fst (get_repo_attr (demo_repo 1 ''Beta'' 7) ''get_commits'' True [] [] init_state)
     = Inl RateLimitExceededException
   \<and> get_repo_attr (demo_repo 1 ''Beta'' 7) ''get_commits'' True [] []
        (snd (get_repo_attr (demo_repo 1 ''Beta'' 7) ''get_commits'' True [] [] init_state))
     = (Inl RateLimitExceededException,
        \<lparr>world = [''commits'', ''commits''], cache = (\<lambda>k. None),
         invoked = [(1, ''get_commits'', True, [], []), (1, ''get_commits'', True, [], [])]\<rparr>)"
  by (simp add: get_repo_attr_def get_repo_attr_body_def demo_repo_def init_state_def Let_def)

text \<open>
  Claim C1, as amended. Let a call of \<^verbatim>\<open>get_repo_attr\<close> return the value \<open>v\<close> and leave the
  state \<open>s1\<close>. A later call with the identical signature (the same repository identity,
  name, total flag and arguments) returns \<open>v\<close> and leaves the state as it is: the body is
  not run again (nothing is added to the log \<open>invoked\<close>) and the remote side is not
  touched. This holds in every later state \<open>s2\<close> that still has the entry, whatever
  happened to the remote state in between, and for every repository object \<open>repo'\<close> of the
  same identity, so also when the attributes behind the accessor have changed. The first
  call ran the body at most once, and no call of the resolver replaces the entry.
\<close>

theorem get_repo_attr_memoized:
  assumes first: "get_repo_attr repo name tf args kwargs s = (Inr v, s1)"
    and same: "repo_id repo' = repo_id repo"
    and kept: "cache s2 (repo_id repo, name, tf, args, kwargs) = cache s1 (repo_id repo, name, tf, args, kwargs)"
  shows "get_repo_attr repo' name tf args kwargs s2 = (Inr v, s2)
       \<and> (invoked s1 = invoked s \<or> invoked s1 = invoked s @ [(repo_id repo, name, tf, args, kwargs)])
       \<and> (\<forall>r n t a kw. cache (snd (get_repo_attr r n t a kw s1)) (repo_id repo, name, tf, args, kwargs)
                          = Some v)"
proof -
  define k where "k = (repo_id repo, name, tf, args, kwargs)"
  have entry: "cache s1 k = Some v"
    using first unfolding get_repo_attr_def Let_def k_def [symmetric]
    by (auto split: option.splits prod.splits sum.splits)
  have inv: "invoked s1 = invoked s \<or> invoked s1 = invoked s @ [k]"
    using first unfolding get_repo_attr_def Let_def k_def [symmetric]
    by (auto split: option.splits prod.splits sum.splits)
  have "cache s2 k = Some v" using kept entry by (simp add: k_def)
  then have hit: "get_repo_attr repo' name tf args kwargs s2 = (Inr v, s2)"
    unfolding get_repo_attr_def Let_def same k_def [symmetric] by simp
  have keep: "\<forall>r n t a kw. cache (snd (get_repo_attr r n t a kw s1)) k = Some v"
    using get_repo_attr_keeps_entry [OF entry] by blast
  show ?thesis using hit inv keep unfolding k_def by (intro conjI)
qed

theorem get_repo_attr_memoized_witness:
  "get_repo_attr (demo_repo 1 ''Beta'' 7) ''get_issues'' True [] [] init_state
     = (Inr (VInt 0),
        \<lparr>world = [''issues''],
         cache = (\<lambda>k. None)((1, ''get_issues'', True, [], []) \<mapsto> VInt 0),
         invoked = [(1, ''get_issues'', True, [], [])]\<rparr>)
   \<and> fst (get_repo_attr_body (demo_repo 1 ''Renamed'' 9) ''get_issues'' True [] [] [''a'', ''b''])
       = Inr (VInt 2)
   \<and> get_repo_attr (demo_repo 1 ''Renamed'' 9) ''get_issues'' True [] []
        \<lparr>world = [''a'', ''b''],
         cache = (\<lambda>k. None)((1, ''get_issues'', True, [], []) \<mapsto> VInt 0),
         invoked = [(1, ''get_issues'', True, [], [])]\<rparr>
     = (Inr (VInt 0),
        \<lparr>world = [''a'', ''b''],
         cache = (\<lambda>k. None)((1, ''get_issues'', True, [], []) \<mapsto> VInt 0),
         invoked = [(1, ''get_issues'', True, [], [])]\<rparr>)"
proof -
  have first: "get_repo_attr (demo_repo 1 ''Beta'' 7) ''get_issues'' True [] [] init_state
     = (Inr (VInt 0),
        \<lparr>world = [''issues''],
         cache = (\<lambda>k. None)((1, ''get_issues'', True, [], []) \<mapsto> VInt 0),
         invoked = [(1, ''get_issues'', True, [], [])]\<rparr>)"
    by (simp add: get_repo_attr_def get_repo_attr_body_def demo_repo_def init_state_def Let_def)
  have same: "repo_id (demo_repo 1 ''Renamed'' 9) = repo_id (demo_repo 1 ''Beta'' 7 :: string list repo)"
    by (simp add: demo_repo_def)
  have body: "fst (get_repo_attr_body (demo_repo 1 ''Renamed'' 9) ''get_issues'' True [] [] [''a'', ''b''])
       = Inr (VInt 2)"
    by (simp add: get_repo_attr_body_def demo_repo_def)
  show ?thesis
    using get_repo_attr_memoized [OF first same, of "\<lparr>world = [''a'', ''b''],
         cache = (\<lambda>k. None)((1, ''get_issues'', True, [], []) \<mapsto> VInt 0),
         invoked = [(1, ''get_issues'', True, [], [])]\<rparr>"] first body
    by (simp add: demo_repo_def)
qed

section \<open>Properties of the scanner\<close>

lemma bnd_ret [simp]: "bnd (ret x) f = f x"
  by (rule ext) (simp add: bnd_def ret_def)

lemma bnd_Inl: "m s = (Inl e, s') \<Longrightarrow> bnd m f s = (Inl e, s')"
  by (simp add: bnd_def)

lemma bnd_Inr: "m s = (Inr x, s') \<Longrightarrow> bnd m f s = f x s'"
  by (simp add: bnd_def)

lemma bnd_Inr_elim:
  "bnd m f s = (Inr y, s') \<Longrightarrow> \<exists>x s1. m s = (Inr x, s1) \<and> f x s1 = (Inr y, s')"
  by (auto simp: bnd_def split: prod.splits sum.splits)

subsection \<open>Validation of the owner selector\<close>

text \<open>
  Claim C6. When none or more than one of \<^verbatim>\<open>org_name\<close>, \<^verbatim>\<open>user_name\<close> and \<^verbatim>\<open>owner_name\<close>
  is supplied (not \<^verbatim>\<open>None\<close> and not empty), the run of the generator yields nothing and
  ends with the \<^verbatim>\<open>AssertionError\<close> of source line 110, and the state after it is the state
  before it. This holds for every client \<open>g\<close>, so no lookup and no listing was made: a
  call to the remote side goes through \<open>net\<close> and would show in the state.
\<close>

theorem scan_rejects_ambiguous_owner:
  assumes "length (filter given [org_name a, user_name a, owner_name a]) \<noteq> 1"
  shows "scan_repos py g a s = (([], Some AssertionError), s)"
  using assms by (simp add: scan_repos_def)

theorem scan_rejects_ambiguous_owner_witness:
  "length (filter given [org_name (demo_args\<lparr>org_name := Some ''github''\<rparr>),
                          user_name (demo_args\<lparr>org_name := Some ''github''\<rparr>),
                          owner_name (demo_args\<lparr>org_name := Some ''github''\<rparr>)]) = 2
   \<and> scan_repos demo_py demo_github (demo_args\<lparr>org_name := Some ''github''\<rparr>) init_state
       = (([], Some AssertionError), init_state)
   \<and> world init_state = []
   \<and> length (filter given [org_name (demo_args\<lparr>owner_name := None\<rparr>),
                          user_name (demo_args\<lparr>owner_name := None\<rparr>),
                          owner_name (demo_args\<lparr>owner_name := None\<rparr>)]) = 0
   \<and> scan_repos demo_py demo_github (demo_args\<lparr>owner_name := None\<rparr>) init_state
       = (([], Some AssertionError), init_state)"
  using scan_rejects_ambiguous_owner [of "demo_args\<lparr>org_name := Some ''github''\<rparr>" demo_py demo_github init_state]
    scan_rejects_ambiguous_owner [of "demo_args\<lparr>owner_name := None\<rparr>" demo_py demo_github init_state]
  by (simp add: demo_args_def given_def init_state_def)

subsection \<open>The first element of the output\<close>

lemma emap_Inr_nth:
  "emap f xs = Inr ys \<Longrightarrow> length ys = length xs \<and> (\<forall>i<length xs. f (xs ! i) = Inr (ys ! i))"
proof (induction xs arbitrary: ys)
  case Nil
  then show ?case by simp
next
  case (Cons x xs)
  from Cons.prems obtain y ys' where fx: "f x = Inr y" and rest: "emap f xs = Inr ys'"
    and ys: "ys = y # ys'"
    by (auto simp: ebind_def split: sum.splits)
  from Cons.IH [OF rest] have len: "length ys' = length xs"
    and nth: "\<forall>i<length xs. f (xs ! i) = Inr (ys' ! i)" by simp_all
  show ?case using fx len nth ys by (auto simp: nth_Cons split: nat.splits)
qed

lemma emap_zip:
  assumes "emap f xs = Inr ys" and "(y, x) \<in> set (zip ys xs)"
  shows "f x = Inr y"
proof -
  from assms(2) obtain i where "i < length ys" "i < length xs" "ys ! i = y" "xs ! i = x"
    by (auto simp: set_zip)
  then show ?thesis using emap_Inr_nth [OF assms(1)] by auto
qed

lemma emap_pairs:
  "(\<And>p. p \<in> set zs \<Longrightarrow> f (snd p) = Inr (fst p)) \<Longrightarrow> emap f (map snd zs) = Inr (map fst zs)"
  by (induction zs) simp_all

lemma sorted_repos_props:
  assumes "emap name_lower listing = Inr ks"
  shows "\<exists>rs ks'. sorted_repos listing = Inr rs \<and> mset rs = mset listing
            \<and> emap name_lower rs = Inr ks' \<and> sorted ks'"
proof -
  define zs where "zs = sort_key fst (zip ks listing)"
  have len: "length ks = length listing" using emap_Inr_nth [OF assms] by simp
  have sr: "sorted_repos listing = Inr (map snd zs)"
    using assms by (simp add: sorted_repos_def zs_def)
  have "mset (map snd zs) = mset (map snd (zip ks listing))"
    unfolding zs_def by (metis mset_map mset_sort)
  then have ms: "mset (map snd zs) = mset listing" using len by simp
  have "f (snd p) = Inr (fst p)" if "p \<in> set zs" and "f = name_lower" for p f
  proof -
    from that have "(fst p, snd p) \<in> set (zip ks listing)" by (simp add: zs_def)
    then show ?thesis using emap_zip [OF assms] that(2) by blast
  qed
  then have keys: "emap name_lower (map snd zs) = Inr (map fst zs)"
    by (intro emap_pairs) simp
  have "sorted (map fst zs)" unfolding zs_def by (rule sorted_sort_key)
  then show ?thesis using sr ms keys by blast
qed

text \<open>
  Claim C2. Let the owner selector be valid (exactly one of the three names is supplied),
  let the owner be found and the listing succeed with the repositories \<open>listing\<close>, each of
  which has a string as its name. Then the first element that the generator yields is a
  list \<open>rs\<close> that holds exactly the repositories of the listing (as a multiset) and is
  sorted by lower-case name; and it is the same list \<open>rs\<close> for every value of the name
  pattern, so the filter of source lines 128 and 129 is not applied to it.
\<close>

theorem scan_first_yield_sorted_unfiltered:
  assumes sel: "length (filter given [org_name a, user_name a, owner_name a]) = 1"
    and own: "resolve_owner g a s = (Inr owner, s1)"
    and lst: "get_repos owner (world s1) = (Inr listing, w2)"
    and names: "emap name_lower listing = Inr ks"
  shows "\<exists>rs ks'. mset rs = mset listing \<and> emap name_lower rs = Inr ks' \<and> sorted ks'
           \<and> (\<forall>pat. \<exists>rest. fst (fst (scan_repos py g (a\<lparr>repo_name_pat := pat\<rparr>) s)) = YRepos rs # rest)"
proof -
  from sorted_repos_props [OF names] obtain rs ks' where sr: "sorted_repos listing = Inr rs"
    and ms: "mset rs = mset listing" and keys: "emap name_lower rs = Inr ks'" and so: "sorted ks'"
    by blast
  have "resolve_owner g (a\<lparr>repo_name_pat := pat\<rparr>) = resolve_owner g a" for pat
    by (auto simp: resolve_owner_def fun_eq_iff split: prod.splits sum.splits)
  then have own': "resolve_owner g (a\<lparr>repo_name_pat := pat\<rparr>) s = (Inr owner, s1)" for pat
    using own by simp
  have "\<exists>rest. fst (fst (scan_repos py g (a\<lparr>repo_name_pat := pat\<rparr>) s)) = YRepos rs # rest" for pat
    using sel own' [of pat] lst sr
    by (simp add: scan_repos_def net_def split: sum.splits prod.splits)
  then show ?thesis using ms keys so by blast
qed

theorem scan_first_yield_sorted_unfiltered_witness:
  "length (filter given [org_name demo_args, user_name demo_args, owner_name demo_args]) = 1
   \<and> resolve_owner demo_github demo_args init_state
       = (Inr demo_owner, init_state\<lparr>world := [''org'', ''user'']\<rparr>)
   \<and> get_repos demo_owner [''org'', ''user'']
       = (Inr [demo_repo 1 ''Beta'' 7, demo_repo 2 ''alpha'' 5], [''org'', ''user'', ''repos''])
   \<and> emap name_lower [demo_repo 1 ''Beta'' 7, demo_repo 2 ''alpha'' 5 :: string list repo]
       = Inr [''beta'', ''alpha'']
   \<and> (\<exists>rs ks'. mset rs = mset [demo_repo 1 ''Beta'' 7, demo_repo 2 ''alpha'' 5]
         \<and> emap name_lower rs = Inr ks' \<and> sorted ks'
         \<and> (\<forall>pat. \<exists>rest. fst (fst (scan_repos demo_py demo_github
                                        (demo_args\<lparr>repo_name_pat := pat\<rparr>) init_state))
                            = YRepos rs # rest))"
proof -
  have h1: "length (filter given [org_name demo_args, user_name demo_args, owner_name demo_args]) = 1"
    by (simp add: demo_args_def given_def)
  have h2: "resolve_owner demo_github demo_args init_state
       = (Inr demo_owner, init_state\<lparr>world := [''org'', ''user'']\<rparr>)"
    by (simp add: resolve_owner_def demo_args_def given_def net_def demo_github_def init_state_def)
  have h3: "get_repos demo_owner (world (init_state\<lparr>world := [''org'', ''user'']\<rparr>))
       = (Inr [demo_repo 1 ''Beta'' 7, demo_repo 2 ''alpha'' 5], [''org'', ''user'', ''repos''])"
    by (simp add: demo_owner_def)
  have h4: "emap name_lower [demo_repo 1 ''Beta'' 7, demo_repo 2 ''alpha'' 5 :: string list repo]
       = Inr [''beta'', ''alpha'']"
    by (simp add: name_lower_def demo_repo_def lower_def lower_char_def)
  have h3': "get_repos demo_owner [''org'', ''user'']
       = (Inr [demo_repo 1 ''Beta'' 7, demo_repo 2 ''alpha'' 5], [''org'', ''user'', ''repos''])"
    using h3 by simp
  show ?thesis
    using scan_first_yield_sorted_unfiltered [OF h1 h2 h3 h4, of demo_py] h1 h2 h3' h4 by (intro conjI)
qed

subsection \<open>The name filter\<close>

lemma efilter_Inr:
  "efilter f xs = Inr ys \<Longrightarrow> ys = filter (\<lambda>x. f x = Inr True) xs"
proof (induction xs arbitrary: ys)
  case Nil
  then show ?case by simp
next
  case (Cons x xs)
  from Cons.prems obtain b ys' where fx: "f x = Inr b" and rest: "efilter f xs = Inr ys'"
    and ys: "ys = (if b then x # ys' else ys')"
    by (auto simp: ebind_def split: sum.splits)
  show ?case using Cons.IH [OF rest] fx ys by simp
qed

lemma scan_loop_recs:
  "scan_loop fs py cbs owner rs s = ((recs, out), s') \<Longrightarrow>
     map fst recs = take (length recs) rs
     \<and> (\<forall>q\<in>set recs. \<exists>sa sb. build_entry fs py cbs owner (fst q) sa = (Inr (snd q), sb))"
proof (induction rs arbitrary: s recs out s')
  case Nil
  then show ?case by simp
next
  case (Cons r rs)
  show ?case
  proof (cases "build_entry fs py cbs owner r s")
    case (Pair res s1)
    show ?thesis
    proof (cases res)
      case (Inl e)
      then show ?thesis using Cons.prems Pair by simp
    next
      case (Inr en)
      obtain recs' out' s2 where loop: "scan_loop fs py cbs owner rs s1 = ((recs', out'), s2)"
        by (metis prod.collapse)
      from Cons.prems Pair Inr loop have recs: "recs = (r, en) # recs'" by simp
      from Cons.IH [OF loop] have ih1: "map fst recs' = take (length recs') rs"
        and ih2: "\<forall>q\<in>set recs'. \<exists>sa sb. build_entry fs py cbs owner (fst q) sa = (Inr (snd q), sb)"
        by simp_all
      have "\<exists>sa sb. build_entry fs py cbs owner r sa = (Inr en, sb)" using Pair Inr by blast
      then show ?thesis using recs ih1 ih2 by simp
    qed
  qed
qed

lemmas demo_defs = demo_args_def given_def resolve_owner_def net_def demo_github_def init_state_def
     demo_owner_def sorted_repos_def name_lower_def demo_repo_def lower_def lower_char_def
     filter_repos_def name_matches_def demo_py_def fields_or_default_def build_entry_def entry_steps_def
     step_name_def step_full_name_def step_flag_def step_created_at_def step_count_def step_forks_count_def
     step_stargazers_count_def step_get_languages_def step_get_commits_def step_commits_1y_def
     step_commit_activity_def step_callbacks_def bnd_def ret_def get_repo_attr_def get_repo_attr_body_def
     fmt_def Let_def

lemma demo_scan_items:
  "fst (scan_repos demo_py demo_github demo_args init_state) =
     ([YRepos [demo_repo 2 ''alpha'' 5, demo_repo 1 ''Beta'' 7],
       YEntry [(''name'', VStr ''<a href=\"https://github.com/octocat/alpha\">alpha</a>''),
               (''stargazers_count'', VInt 5)]], None)"
  by (simp add: scan_repos_def demo_defs)

lemma scan_loop_chain:
  "scan_loop fs py cbs owner rs s = ((recs, out), s') \<Longrightarrow>
     \<exists>ss. length ss = Suc (length recs) \<and> ss ! 0 = s
        \<and> map fst recs = take (length recs) rs
        \<and> (\<forall>j<length recs. build_entry fs py cbs owner (fst (recs ! j)) (ss ! j)
                               = (Inr (snd (recs ! j)), ss ! Suc j))"
proof (induction rs arbitrary: s recs out s')
  case Nil
  then have "recs = []" by simp
  then show ?case by (intro exI [of _ "[s]"]) simp
next
  case (Cons r rs)
  show ?case
  proof (cases "build_entry fs py cbs owner r s")
    case (Pair res s1)
    show ?thesis
    proof (cases res)
      case (Inl e)
      then have "recs = []" using Cons.prems Pair by simp
      then show ?thesis by (intro exI [of _ "[s]"]) simp
    next
      case (Inr en)
      obtain recs' out' s2 where loop: "scan_loop fs py cbs owner rs s1 = ((recs', out'), s2)"
        by (metis prod.collapse)
      from Cons.prems Pair Inr loop have recs: "recs = (r, en) # recs'" by simp
      from Cons.IH [OF loop] obtain ss where len: "length ss = Suc (length recs')"
        and hd: "ss ! 0 = s1" and pre: "map fst recs' = take (length recs') rs"
        and ch: "\<forall>j<length recs'. build_entry fs py cbs owner (fst (recs' ! j)) (ss ! j)
                               = (Inr (snd (recs' ! j)), ss ! Suc j)"
        by blast
      have b0: "build_entry fs py cbs owner r s = (Inr en, s1)" using Pair Inr by simp
      have "\<forall>j<length recs. build_entry fs py cbs owner (fst (recs ! j)) ((s # ss) ! j)
                               = (Inr (snd (recs ! j)), (s # ss) ! Suc j)"
      proof (intro allI impI)
        fix j assume j: "j < length recs"
        show "build_entry fs py cbs owner (fst (recs ! j)) ((s # ss) ! j)
                               = (Inr (snd (recs ! j)), (s # ss) ! Suc j)"
        proof (cases j)
          case 0
          then show ?thesis using b0 hd recs by simp
        next
          case (Suc k)
          then have "k < length recs'" using j recs by simp
          then show ?thesis using ch Suc recs by simp
        qed
      qed
      then show ?thesis using len pre recs
        by (intro exI [of _ "s # ss"]) simp
    qed
  qed
qed

text \<open>
  Claim C7. Let a name pattern \<open>p\<close> be supplied (not empty). A run that yields anything
  has found the owner, listed and sorted the repositories into \<open>rs\<close>, and yielded \<open>rs\<close>
  first. Either nothing follows (the filter raised), or the records that follow are the
  result \<open>recs\<close> of the loop of source lines 136 to 185 run over the repositories of \<open>rs\<close>
  at the start of whose name \<^verbatim>\<open>re.match\<close> finds the pattern, in the state after the
  listing: the repositories of the records are the first ones of this filtered list, in
  its order; the record at position \<open>j\<close> is the one that the loop body builds for the
  repository at position \<open>j\<close> in the state that the records before it left; so every
  repository of a record has a name that matches at its start, and a repository of \<open>rs\<close>
  whose name does not match has no record. That the match is anchored at the start and
  need not reach the end of the name is the contract of \<^verbatim>\<open>re.match\<close>, the builtin that the
  code calls.
\<close>

theorem scan_records_match_pattern:
  assumes run: "scan_repos py g a s = ((items, out), s')"
    and pat: "repo_name_pat a = Some p" and ne: "p \<noteq> []"
  shows "items = [] \<or>
     (\<exists>owner s1 listing s2 rs.
        resolve_owner g a s = (Inr owner, s1)
      \<and> net (get_repos owner) s1 = (Inr listing, s2)
      \<and> sorted_repos listing = Inr rs
      \<and> (items = [YRepos rs]
          \<or> (\<exists>recs ss.
                scan_loop (fields_or_default (fields_arg a)) py (callbacks a) owner
                  (filter (\<lambda>r. name_matches py p r = Inr True) rs) s2 = ((recs, out), s')
              \<and> items = YRepos rs # map (\<lambda>q. YEntry (snd q)) recs
              \<and> map fst recs = take (length recs) (filter (\<lambda>r. name_matches py p r = Inr True) rs)
              \<and> length ss = Suc (length recs) \<and> ss ! 0 = s2
              \<and> (\<forall>j<length recs.
                    build_entry (fields_or_default (fields_arg a)) py (callbacks a) owner
                      (fst (recs ! j)) (ss ! j) = (Inr (snd (recs ! j)), ss ! Suc j))
              \<and> (\<forall>q\<in>set recs. \<exists>nm. map_of (attrs (fst q)) ''name'' = Some (Plain (VStr nm))
                                        \<and> re_match py p nm = Inr True)
              \<and> (\<forall>r\<in>set rs. name_matches py p r \<noteq> Inr True \<longrightarrow> r \<notin> fst ` set recs))))"
proof (cases "items = []")
  case True
  then show ?thesis by simp
next
  case False
  from run False obtain ow s1 listing s2 rs where
    own: "resolve_owner g a s = (Inr ow, s1)"
    and lst: "net (get_repos ow) s1 = (Inr listing, s2)"
    and srt: "sorted_repos listing = Inr rs"
    and rest: "(case filter_repos py (Some p) rs of
                 Inl e \<Rightarrow> (([YRepos rs], Some e), s2)
               | Inr repos' \<Rightarrow>
                   (case scan_loop (fields_or_default (fields_arg a)) py (callbacks a) ow repos' s2 of
                      ((recs, out), s3) \<Rightarrow> ((YRepos rs # map (\<lambda>p. YEntry (snd p)) recs, out), s3)))
               = ((items, out), s')"
    unfolding scan_repos_def pat
    by (auto split: if_splits prod.splits sum.splits)
  define flt where "flt = filter (\<lambda>r. name_matches py p r = Inr True) rs"
  have tail: "items = [YRepos rs]
          \<or> (\<exists>recs ss.
                scan_loop (fields_or_default (fields_arg a)) py (callbacks a) ow flt s2 = ((recs, out), s')
              \<and> items = YRepos rs # map (\<lambda>q. YEntry (snd q)) recs
              \<and> map fst recs = take (length recs) flt
              \<and> length ss = Suc (length recs) \<and> ss ! 0 = s2
              \<and> (\<forall>j<length recs.
                    build_entry (fields_or_default (fields_arg a)) py (callbacks a) ow
                      (fst (recs ! j)) (ss ! j) = (Inr (snd (recs ! j)), ss ! Suc j))
              \<and> (\<forall>q\<in>set recs. \<exists>nm. map_of (attrs (fst q)) ''name'' = Some (Plain (VStr nm))
                                        \<and> re_match py p nm = Inr True)
              \<and> (\<forall>r\<in>set rs. name_matches py p r \<noteq> Inr True \<longrightarrow> r \<notin> fst ` set recs))"
  proof (cases "filter_repos py (Some p) rs")
    case (Inl e)
    then have "items = [YRepos rs]" using rest by simp
    then show ?thesis by simp
  next
    case (Inr repos')
    then have flt: "repos' = flt"
      using ne by (simp add: filter_repos_def efilter_Inr flt_def)
    obtain recs out' s3 where loop0:
      "scan_loop (fields_or_default (fields_arg a)) py (callbacks a) ow flt s2 = ((recs, out'), s3)"
      by (metis prod.collapse)
    from rest Inr loop0 flt have items: "items = YRepos rs # map (\<lambda>q. YEntry (snd q)) recs"
      and "out' = out" and "s3 = s'" by simp_all
    then have loop:
      "scan_loop (fields_or_default (fields_arg a)) py (callbacks a) ow flt s2 = ((recs, out), s')"
      using loop0 by simp
    from scan_loop_chain [OF loop] obtain ss where len: "length ss = Suc (length recs)"
      and hd: "ss ! 0 = s2" and pre: "map fst recs = take (length recs) flt"
      and ch: "\<forall>j<length recs.
                    build_entry (fields_or_default (fields_arg a)) py (callbacks a) ow
                      (fst (recs ! j)) (ss ! j) = (Inr (snd (recs ! j)), ss ! Suc j)"
      by blast
    have sub: "set (map fst recs) \<subseteq> set flt"
      using pre by (metis set_take_subset)
    have mem: "fst q \<in> set rs \<and> name_matches py p (fst q) = Inr True" if "q \<in> set recs" for q
      using that sub by (auto simp: flt_def)
    have nm: "\<exists>nm. map_of (attrs r) ''name'' = Some (Plain (VStr nm)) \<and> re_match py p nm = Inr True"
      if "name_matches py p r = Inr True" for r :: "'a repo"
      using that by (auto simp: name_matches_def split: option.splits thing.splits pyval.splits)
    have a1: "\<forall>q\<in>set recs. \<exists>nm. map_of (attrs (fst q)) ''name'' = Some (Plain (VStr nm))
                                        \<and> re_match py p nm = Inr True"
      using mem nm by blast
    have a2: "\<forall>r\<in>set rs. name_matches py p r \<noteq> Inr True \<longrightarrow> r \<notin> fst ` set recs"
      using mem by auto
    show ?thesis
      by (rule disjI2, rule exI [of _ recs], rule exI [of _ ss])
        (intro conjI loop items pre len hd ch a1 a2)
  qed
  show ?thesis
    by (rule disjI2, rule exI [of _ ow], rule exI [of _ s1], rule exI [of _ listing],
        rule exI [of _ s2], rule exI [of _ rs])
      (intro conjI own lst srt tail [unfolded flt_def])
qed

lemma pick_records:
  assumes "a \<or> (\<exists>ow s1 l s2 rs. P ow s1 \<and> Q ow s1 l s2 \<and> S l rs
                    \<and> (b rs \<or> (\<exists>recs ss. R ow s2 rs recs ss)))"
    and "\<not> a" and "\<And>rs. \<not> b rs"
  shows "\<exists>ow s1 l s2 rs recs ss. P ow s1 \<and> Q ow s1 l s2 \<and> S l rs \<and> R ow s2 rs recs ss"
  using assms by blast

theorem scan_records_match_pattern_witness:
  "repo_name_pat demo_args = Some ''al'' \<and> ''al'' \<noteq> []
   \<and> length (fst (fst (scan_repos demo_py demo_github demo_args init_state))) = 2
   \<and> name_matches demo_py ''al'' (demo_repo 1 ''Beta'' 7 :: string list repo) = Inr False
   \<and> (\<exists>owner s1 listing s2 rs recs ss.
        resolve_owner demo_github demo_args init_state = (Inr owner, s1)
      \<and> net (get_repos owner) s1 = (Inr listing, s2)
      \<and> sorted_repos listing = Inr rs
      \<and> scan_loop (fields_or_default (fields_arg demo_args)) demo_py (callbacks demo_args) owner
           (filter (\<lambda>r. name_matches demo_py ''al'' r = Inr True) rs) s2
         = ((recs, snd (fst (scan_repos demo_py demo_github demo_args init_state))),
            snd (scan_repos demo_py demo_github demo_args init_state))
      \<and> fst (fst (scan_repos demo_py demo_github demo_args init_state))
         = YRepos rs # map (\<lambda>q. YEntry (snd q)) recs
      \<and> map fst recs = take (length recs) (filter (\<lambda>r. name_matches demo_py ''al'' r = Inr True) rs)
      \<and> length ss = Suc (length recs) \<and> ss ! 0 = s2
      \<and> (\<forall>j<length recs.
            build_entry (fields_or_default (fields_arg demo_args)) demo_py (callbacks demo_args) owner
              (fst (recs ! j)) (ss ! j) = (Inr (snd (recs ! j)), ss ! Suc j))
      \<and> (\<forall>q\<in>set recs. \<exists>nm. map_of (attrs (fst q)) ''name'' = Some (Plain (VStr nm))
                                \<and> re_match demo_py ''al'' nm = Inr True)
      \<and> (\<forall>r\<in>set rs. name_matches demo_py ''al'' r \<noteq> Inr True \<longrightarrow> r \<notin> fst ` set recs))"
proof -
  define X where "X = scan_repos demo_py demo_github demo_args init_state"
  have run: "scan_repos demo_py demo_github demo_args init_state = ((fst (fst X), snd (fst X)), snd X)"
    by (simp add: X_def)
  have pat: "repo_name_pat demo_args = Some ''al''" by (simp add: demo_args_def)
  have ne: "''al'' \<noteq> []" by simp
  have len: "length (fst (fst X)) = 2" unfolding X_def demo_scan_items by simp
  have nm: "name_matches demo_py ''al'' (demo_repo 1 ''Beta'' 7 :: string list repo) = Inr False"
    by (simp add: name_matches_def demo_repo_def demo_py_def)
  from len have n0: "fst (fst X) \<noteq> []" by auto
  from len have n1: "\<not> fst (fst X) = [YRepos rs]" for rs by auto
  from n0 have n0: "\<not> fst (fst X) = []" .
  note ex = pick_records [OF scan_records_match_pattern [OF run pat ne] n0 n1]
  show ?thesis using pat ne len nm ex unfolding X_def by (intro conjI)
qed

subsection \<open>The order of the keys of a record\<close>

lemma run_steps_append:
  "run_steps (xs @ ys) entry = bnd (run_steps xs entry) (run_steps ys)"
proof (induction xs arbitrary: entry)
  case Nil
  then show ?case by simp
next
  case (Cons st xs)
  show ?case
    by (rule ext) (simp add: Cons.IH bnd_def split: prod.splits sum.splits)
qed

lemma run_steps_single [simp]: "run_steps [st] entry = st entry"
  by (rule ext) (simp add: bnd_def ret_def split: prod.splits sum.splits)

lemma keys_dict_set:
  "map fst (dict_set d k v) = (if k \<in> set (map fst d) then map fst d else map fst d @ [k])"
  by (induction d) auto

lemma keys_fold_dict_set:
  "\<exists>extra. map fst (fold (\<lambda>kv acc. dict_set acc (fst kv) (snd kv)) other d) = map fst d @ extra"
proof (induction other arbitrary: d)
  case Nil
  then show ?case by simp
next
  case (Cons kv other)
  obtain extra where "map fst (fold (\<lambda>kv acc. dict_set acc (fst kv) (snd kv)) other
                        (dict_set d (fst kv) (snd kv))) = map fst (dict_set d (fst kv) (snd kv)) @ extra"
    using Cons.IH by blast
  then show ?case by (auto simp: keys_dict_set)
qed

lemma keys_dict_update: "\<exists>extra. map fst (dict_update d other) = map fst d @ extra"
  unfolding dict_update_def by (rule keys_fold_dict_set)

lemma run_callbacks_keys:
  "run_steps (map (apply_callback repo) cs) entry s = (Inr entry', s')
     \<Longrightarrow> \<exists>extra. map fst entry' = map fst entry @ extra"
proof (induction cs arbitrary: entry s)
  case Nil
  then show ?case by (simp add: ret_def)
next
  case (Cons cb cs)
  from Cons.prems have "bnd (apply_callback repo cb entry)
      (run_steps (map (apply_callback repo) cs)) s = (Inr entry', s')" by simp
  from bnd_Inr_elim [OF this] obtain en1 s1
    where hd: "apply_callback repo cb entry s = (Inr en1, s1)"
    and rest: "run_steps (map (apply_callback repo) cs) en1 s1 = (Inr entry', s')"
    by blast
  from hd obtain d where en1: "en1 = dict_update entry d"
    by (auto simp: apply_callback_def bnd_def ret_def split: prod.splits sum.splits)
  from Cons.IH [OF rest] obtain e1 where "map fst entry' = map fst en1 @ e1"
    by blast
  moreover obtain e2 where "map fst (dict_update entry d) = map fst entry @ e2"
    using keys_dict_update by blast
  ultimately show ?case using en1 by simp
qed

lemma step_callbacks_keys:
  assumes "step_callbacks cbs repo entry s = (Inr entry', s')"
  shows "\<exists>extra. map fst entry' = map fst entry @ extra
            \<and> ((cbs = None \<or> cbs = Some []) \<longrightarrow> extra = [])"
proof (cases cbs)
  case None
  then show ?thesis using assms by (simp add: step_callbacks_def ret_def)
next
  case (Some cs)
  show ?thesis
  proof (cases cs)
    case Nil
    then show ?thesis using assms Some by (simp add: step_callbacks_def ret_def)
  next
    case (Cons c cs')
    then show ?thesis using assms Some run_callbacks_keys [of repo cs entry s entry' s']
      by (simp add: step_callbacks_def)
  qed
qed

text \<open>A statement that, when it succeeds, assigns to key k if k is requested and otherwise
  leaves the record as it is.\<close>

lemma run_steps_keys:
  assumes "\<forall>p\<in>set kss. \<forall>entry s entry' s'. snd p entry s = (Inr entry', s') \<longrightarrow>
              (\<exists>v. entry' = (if fst p \<in> set fs then dict_set entry (fst p) v else entry))"
    and "distinct (map fst kss)"
    and "set (map fst kss) \<inter> set (map fst entry) = {}"
    and "run_steps (map snd kss) entry s = (Inr entry', s')"
  shows "map fst entry' = map fst entry @ filter (\<lambda>k. k \<in> set fs) (map fst kss)"
  using assms
proof (induction kss arbitrary: entry s)
  case Nil
  then show ?case by (simp add: ret_def)
next
  case (Cons p kss)
  from Cons.prems(4) have "bnd (snd p entry) (run_steps (map snd kss)) s = (Inr entry', s')"
    by simp
  from bnd_Inr_elim [OF this] obtain e1 s1 where st: "snd p entry s = (Inr e1, s1)"
    and rest: "run_steps (map snd kss) e1 s1 = (Inr entry', s')"
    by blast
  from Cons.prems(1) st obtain v where e1: "e1 = (if fst p \<in> set fs then dict_set entry (fst p) v else entry)"
    by (metis list.set_intros(1))
  have notin: "fst p \<notin> set (map fst entry)" using Cons.prems(3) by auto
  have k1: "map fst e1 = map fst entry @ (if fst p \<in> set fs then [fst p] else [])"
    using e1 notin by (simp add: keys_dict_set)
  have disj: "set (map fst kss) \<inter> set (map fst e1) = {}"
    using Cons.prems(2,3) k1 by (auto split: if_splits)
  have "map fst entry' = map fst e1 @ filter (\<lambda>k. k \<in> set fs) (map fst kss)"
    using Cons.IH [OF _ _ disj rest] Cons.prems(1,2) by simp
  then show ?case using k1 by simp
qed

lemma step_name_key:
  "step_name fs py owner repo entry s = (Inr entry', s')
     \<Longrightarrow> \<exists>v. entry' = (if ''name'' \<in> set fs then dict_set entry ''name'' v else entry)"
  by (auto simp: step_name_def bnd_def ret_def Let_def split: if_splits prod.splits sum.splits)

lemma step_full_name_key:
  "step_full_name fs py owner repo entry s = (Inr entry', s')
     \<Longrightarrow> \<exists>v. entry' = (if ''full_name'' \<in> set fs then dict_set entry ''full_name'' v else entry)"
  by (auto simp: step_full_name_def bnd_def ret_def lift_def Let_def split: if_splits prod.splits sum.splits)

lemma step_flag_key:
  "step_flag fs repo k entry s = (Inr entry', s')
     \<Longrightarrow> \<exists>v. entry' = (if k \<in> set fs then dict_set entry k v else entry)"
  by (auto simp: step_flag_def bnd_def ret_def split: if_splits prod.splits sum.splits)

lemma step_created_at_key:
  "step_created_at fs repo entry s = (Inr entry', s')
     \<Longrightarrow> \<exists>v. entry' = (if ''created_at'' \<in> set fs then dict_set entry ''created_at'' v else entry)"
  by (auto simp: step_created_at_def bnd_def ret_def split: if_splits prod.splits sum.splits)

lemma step_count_key:
  "step_count fs repo k entry s = (Inr entry', s')
     \<Longrightarrow> \<exists>v. entry' = (if k \<in> set fs then dict_set entry k v else entry)"
  by (auto simp: step_count_def bnd_def ret_def split: if_splits prod.splits sum.splits)

lemma step_forks_count_key:
  "step_forks_count fs repo entry s = (Inr entry', s')
     \<Longrightarrow> \<exists>v. entry' = (if ''forks_count'' \<in> set fs then dict_set entry ''forks_count'' v else entry)"
  by (auto simp: step_forks_count_def bnd_def ret_def split: if_splits prod.splits sum.splits)

lemma step_stargazers_count_key:
  "step_stargazers_count fs repo entry s = (Inr entry', s')
     \<Longrightarrow> \<exists>v. entry' = (if ''stargazers_count'' \<in> set fs
                          then dict_set entry ''stargazers_count'' v else entry)"
  by (auto simp: step_stargazers_count_def bnd_def ret_def split: if_splits prod.splits sum.splits)

lemma step_get_languages_key:
  "step_get_languages fs repo entry s = (Inr entry', s')
     \<Longrightarrow> \<exists>v. entry' = (if ''get_languages'' \<in> set fs then dict_set entry ''get_languages'' v else entry)"
  by (auto simp: step_get_languages_def bnd_def ret_def lift_def split: if_splits prod.splits sum.splits)

lemma step_get_commits_key:
  "step_get_commits fs repo entry s = (Inr entry', s')
     \<Longrightarrow> \<exists>v. entry' = (if ''get_commits'' \<in> set fs then dict_set entry ''get_commits'' v else entry)"
  by (auto simp: step_get_commits_def ret_def split: if_splits prod.splits sum.splits)

lemma step_commits_1y_key:
  "step_commits_1y fs repo entry s = (Inr entry', s')
     \<Longrightarrow> \<exists>v. entry' = (if ''commits_1y'' \<in> set fs then dict_set entry ''commits_1y'' v else entry)"
  by (auto simp: step_commits_1y_def bnd_def ret_def lift_def split: if_splits prod.splits sum.splits)

lemma step_commit_activity_key:
  "step_commit_activity fs py repo entry s = (Inr entry', s')
     \<Longrightarrow> \<exists>v. entry' = (if ''commit_activity'' \<in> set fs
                          then dict_set entry ''commit_activity'' v else entry)"
  by (auto simp: step_commit_activity_def bnd_def ret_def lift_def split: if_splits prod.splits sum.splits)

lemma build_entry_keys:
  assumes "build_entry fs py cbs owner repo s = (Inr en, s')"
  shows "\<exists>extra. map fst en =
           filter (\<lambda>k. k \<in> set fs)
             [''name'', ''full_name'', ''private'', ''archived'', ''fork'', ''created_at'',
              ''issues'', ''contributors'', ''subscribers'', ''branches'', ''releases'', ''tags'',
              ''labels'', ''pulls'', ''downloads'', ''forks_count'', ''stargazers_count'',
              ''get_languages'', ''get_commits'', ''commits_1y'', ''commit_activity''] @ extra
         \<and> ((cbs = None \<or> cbs = Some []) \<longrightarrow> extra = [])"
proof -
  define kss :: "(string \<times> 'a step) list" where "kss =
     [(''name'', step_name fs py owner repo), (''full_name'', step_full_name fs py owner repo),
      (''private'', step_flag fs repo ''private''), (''archived'', step_flag fs repo ''archived''),
      (''fork'', step_flag fs repo ''fork''), (''created_at'', step_created_at fs repo),
      (''issues'', step_count fs repo ''issues''), (''contributors'', step_count fs repo ''contributors''),
      (''subscribers'', step_count fs repo ''subscribers''), (''branches'', step_count fs repo ''branches''),
      (''releases'', step_count fs repo ''releases''), (''tags'', step_count fs repo ''tags''),
      (''labels'', step_count fs repo ''labels''), (''pulls'', step_count fs repo ''pulls''),
      (''downloads'', step_count fs repo ''downloads''), (''forks_count'', step_forks_count fs repo),
      (''stargazers_count'', step_stargazers_count fs repo),
      (''get_languages'', step_get_languages fs repo), (''get_commits'', step_get_commits fs repo),
      (''commits_1y'', step_commits_1y fs repo), (''commit_activity'', step_commit_activity fs py repo)]"
  have steps: "entry_steps fs py cbs owner repo = map snd kss @ [step_callbacks cbs repo]"
    by (simp add: entry_steps_def kss_def)
  have keys: "map fst kss =
             [''name'', ''full_name'', ''private'', ''archived'', ''fork'', ''created_at'',
              ''issues'', ''contributors'', ''subscribers'', ''branches'', ''releases'', ''tags'',
              ''labels'', ''pulls'', ''downloads'', ''forks_count'', ''stargazers_count'',
              ''get_languages'', ''get_commits'', ''commits_1y'', ''commit_activity'']"
    by (simp add: kss_def)
  define ok :: "string \<times> 'a step \<Rightarrow> bool" where
    "ok = (\<lambda>p. \<forall>entry s entry' s'. snd p entry s = (Inr entry', s') \<longrightarrow>
              (\<exists>v. entry' = (if fst p \<in> set fs then dict_set entry (fst p) v else entry)))"
  have o1: "ok (''name'', step_name fs py owner repo)"
    unfolding ok_def fst_conv snd_conv by (intro allI impI) (rule step_name_key)
  have o2: "ok (''full_name'', step_full_name fs py owner repo)"
    unfolding ok_def fst_conv snd_conv by (intro allI impI) (rule step_full_name_key)
  have o3: "ok (k, step_flag fs repo k)" for k
    unfolding ok_def fst_conv snd_conv by (intro allI impI) (rule step_flag_key)
  have o4: "ok (''created_at'', step_created_at fs repo)"
    unfolding ok_def fst_conv snd_conv by (intro allI impI) (rule step_created_at_key)
  have o5: "ok (k, step_count fs repo k)" for k
    unfolding ok_def fst_conv snd_conv by (intro allI impI) (rule step_count_key)
  have o6: "ok (''forks_count'', step_forks_count fs repo)"
    unfolding ok_def fst_conv snd_conv by (intro allI impI) (rule step_forks_count_key)
  have o7: "ok (''stargazers_count'', step_stargazers_count fs repo)"
    unfolding ok_def fst_conv snd_conv by (intro allI impI) (rule step_stargazers_count_key)
  have o8: "ok (''get_languages'', step_get_languages fs repo)"
    unfolding ok_def fst_conv snd_conv by (intro allI impI) (rule step_get_languages_key)
  have o9: "ok (''get_commits'', step_get_commits fs repo)"
    unfolding ok_def fst_conv snd_conv by (intro allI impI) (rule step_get_commits_key)
  have o10: "ok (''commits_1y'', step_commits_1y fs repo)"
    unfolding ok_def fst_conv snd_conv by (intro allI impI) (rule step_commits_1y_key)
  have o11: "ok (''commit_activity'', step_commit_activity fs py repo)"
    unfolding ok_def fst_conv snd_conv by (intro allI impI) (rule step_commit_activity_key)
  have "\<forall>p\<in>set kss. ok p"
    unfolding kss_def by (simp add: o1 o2 o3 o4 o5 o6 o7 o8 o9 o10 o11)
  then have each: "\<forall>p\<in>set kss. \<forall>entry s entry' s'. snd p entry s = (Inr entry', s') \<longrightarrow>
              (\<exists>v. entry' = (if fst p \<in> set fs then dict_set entry (fst p) v else entry))"
    unfolding ok_def .
  have dist: "distinct (map fst kss)" unfolding keys by simp
  have "run_steps [step_callbacks cbs repo] = step_callbacks cbs repo"
    by (rule ext) (rule run_steps_single)
  with assms have "bnd (run_steps (map snd kss) []) (step_callbacks cbs repo) s = (Inr en, s')"
    by (simp add: build_entry_def steps run_steps_append del: run_steps.simps)
  from bnd_Inr_elim [OF this] obtain en0 s0 where
    pre: "run_steps (map snd kss) [] s = (Inr en0, s0)"
    and cb: "step_callbacks cbs repo en0 s0 = (Inr en, s')"
    by auto
  have k0: "map fst en0 = filter (\<lambda>k. k \<in> set fs) (map fst kss)"
    using run_steps_keys [OF each dist _ pre] by simp
  from step_callbacks_keys [OF cb] obtain extra where
    "map fst en = map fst en0 @ extra" "(cbs = None \<or> cbs = Some []) \<longrightarrow> extra = []"
    by blast
  then have "map fst en = filter (\<lambda>k. k \<in> set fs) (map fst kss) @ extra
              \<and> ((cbs = None \<or> cbs = Some []) \<longrightarrow> extra = [])"
    using k0 by simp
  then show ?thesis unfolding keys by (rule exI)
qed

text \<open>
  Claim C4 as stated fails. With the fields list \<^verbatim>\<open>stargazers_count\<close>, \<^verbatim>\<open>name\<close> the record
  of the repository \<^verbatim>\<open>alpha\<close> has its keys in the order \<^verbatim>\<open>name\<close>, \<^verbatim>\<open>stargazers_count\<close>.
\<close>

theorem record_keys_not_in_fields_order_counterexample:
  "fields_arg demo_args = Some [''stargazers_count'', ''name'']
   \<and> fst (fst (scan_repos demo_py demo_github demo_args init_state)) =
       [YRepos [demo_repo 2 ''alpha'' 5, demo_repo 1 ''Beta'' 7],
        YEntry [(''name'', VStr ''<a href=\"https://github.com/octocat/alpha\">alpha</a>''),
                (''stargazers_count'', VInt 5)]]"
  unfolding demo_scan_items by (simp add: demo_args_def)

text \<open>
  Claim C4, as amended. The loop body never iterates over the fields list; it tests the
  membership of each field name in a fixed order, that of the source. So the keys of
  every yielded record are the requested ones among \<^verbatim>\<open>name\<close>, \<^verbatim>\<open>full_name\<close>, \<^verbatim>\<open>private\<close>,
  ..., \<^verbatim>\<open>commits_1y\<close>, \<^verbatim>\<open>commit_activity\<close> in this fixed order, whatever the order of
  the fields list, followed by the keys that callbacks add; without callbacks there are
  no further keys.
\<close>

theorem record_keys_in_dispatch_order:
  assumes run: "scan_repos py g a s = ((items, out), s')"
    and mem: "YEntry en \<in> set items"
  shows "\<exists>extra. map fst en =
           filter (\<lambda>k. k \<in> set (fields_or_default (fields_arg a)))
             [''name'', ''full_name'', ''private'', ''archived'', ''fork'', ''created_at'',
              ''issues'', ''contributors'', ''subscribers'', ''branches'', ''releases'', ''tags'',
              ''labels'', ''pulls'', ''downloads'', ''forks_count'', ''stargazers_count'',
              ''get_languages'', ''get_commits'', ''commits_1y'', ''commit_activity''] @ extra
         \<and> ((callbacks a = None \<or> callbacks a = Some []) \<longrightarrow> extra = [])"
proof -
  have "\<exists>ow rs s2 recs out' s3.
          scan_loop (fields_or_default (fields_arg a)) py (callbacks a) ow rs s2 = ((recs, out'), s3)
          \<and> YEntry en \<in> set (map (\<lambda>p. YEntry (snd p)) recs)"
    using run mem unfolding scan_repos_def
    by (fastforce split: if_splits prod.splits sum.splits)
  then obtain ow rs s2 recs out' s3 where
    loop: "scan_loop (fields_or_default (fields_arg a)) py (callbacks a) ow rs s2 = ((recs, out'), s3)"
    and items: "YEntry en \<in> set (map (\<lambda>p. YEntry (snd p)) recs)"
    by blast
  from items obtain q where q: "q \<in> set recs" and en: "snd q = en" by auto
  from scan_loop_recs [OF loop] q en obtain sa sb where
    "build_entry (fields_or_default (fields_arg a)) py (callbacks a) ow (fst q) sa = (Inr en, sb)"
    by blast
  then show ?thesis by (rule build_entry_keys)
qed

theorem record_keys_in_dispatch_order_witness:
  "YEntry [(''name'', VStr ''<a href=\"https://github.com/octocat/alpha\">alpha</a>''),
           (''stargazers_count'', VInt 5)]
     \<in> set (fst (fst (scan_repos demo_py demo_github demo_args init_state)))
   \<and> fields_or_default (fields_arg demo_args) = [''stargazers_count'', ''name'']
   \<and> callbacks demo_args = None
   \<and> map fst [(''name'', VStr ''<a href=\"https://github.com/octocat/alpha\">alpha</a>''),
               (''stargazers_count'', VInt 5)]
      = filter (\<lambda>k. k \<in> set (fields_or_default (fields_arg demo_args)))
             [''name'', ''full_name'', ''private'', ''archived'', ''fork'', ''created_at'',
              ''issues'', ''contributors'', ''subscribers'', ''branches'', ''releases'', ''tags'',
              ''labels'', ''pulls'', ''downloads'', ''forks_count'', ''stargazers_count'',
              ''get_languages'', ''get_commits'', ''commits_1y'', ''commit_activity'']"
proof -
  define X where "X = scan_repos demo_py demo_github demo_args init_state"
  have run: "scan_repos demo_py demo_github demo_args init_state = ((fst (fst X), snd (fst X)), snd X)"
    by (simp add: X_def)
  have mem: "YEntry [(''name'', VStr ''<a href=\"https://github.com/octocat/alpha\">alpha</a>''),
           (''stargazers_count'', VInt 5)] \<in> set (fst (fst X))"
    unfolding X_def demo_scan_items by simp
  have fs: "fields_or_default (fields_arg demo_args) = [''stargazers_count'', ''name'']"
    by (simp add: demo_args_def fields_or_default_def)
  have cb: "callbacks demo_args = None" by (simp add: demo_args_def)
  from record_keys_in_dispatch_order [OF run mem] cb have "map fst [(''name'', VStr ''<a href=\"https://github.com/octocat/alpha\">alpha</a>''),
               (''stargazers_count'', VInt 5)]
      = filter (\<lambda>k. k \<in> set (fields_or_default (fields_arg demo_args)))
             [''name'', ''full_name'', ''private'', ''archived'', ''fork'', ''created_at'',
              ''issues'', ''contributors'', ''subscribers'', ''branches'', ''releases'', ''tags'',
              ''labels'', ''pulls'', ''downloads'', ''forks_count'', ''stargazers_count'',
              ''get_languages'', ''get_commits'', ''commits_1y'', ''commit_activity'']"
    by auto
  then show ?thesis using mem fs cb unfolding X_def by (intro conjI)
qed

subsection \<open>Errors while a field is resolved\<close>

lemma step_name_raises:
  "''name'' \<in> set fs \<Longrightarrow> get_repo_attr repo ''name'' False [] [] s = (Inl e, s')
     \<Longrightarrow> step_name fs py owner repo entry s = (Inl e, s')"
  by (simp add: step_name_def bnd_def)

lemma step_full_name_raises:
  "''full_name'' \<in> set fs \<Longrightarrow> get_repo_attr repo ''full_name'' False [] [] s = (Inl e, s')
     \<Longrightarrow> step_full_name fs py owner repo entry s = (Inl e, s')"
  by (simp add: step_full_name_def bnd_def)

lemma step_flag_raises:
  "k \<in> set fs \<Longrightarrow> get_repo_attr repo k False [] [] s = (Inl e, s')
     \<Longrightarrow> step_flag fs repo k entry s = (Inl e, s')"
  by (simp add: step_flag_def bnd_def)

lemma step_created_at_raises:
  "''created_at'' \<in> set fs \<Longrightarrow> get_repo_attr repo ''created_at'' False [] [] s = (Inl e, s')
     \<Longrightarrow> step_created_at fs repo entry s = (Inl e, s')"
  by (simp add: step_created_at_def bnd_def)

lemma step_count_raises:
  "k \<in> set fs \<Longrightarrow> get_repo_attr repo (''get_'' @ k) True [] [] s = (Inl e, s')
     \<Longrightarrow> step_count fs repo k entry s = (Inl e, s')"
  by (simp add: step_count_def bnd_def)

lemma step_forks_count_raises:
  "''forks_count'' \<in> set fs \<Longrightarrow> get_repo_attr repo ''forks_count'' False [] [] s = (Inl e, s')
     \<Longrightarrow> step_forks_count fs repo entry s = (Inl e, s')"
  by (simp add: step_forks_count_def bnd_def)

lemma step_stargazers_count_raises:
  "''stargazers_count'' \<in> set fs
     \<Longrightarrow> get_repo_attr repo ''stargazers_count'' False [] [] s = (Inl e, s')
     \<Longrightarrow> step_stargazers_count fs repo entry s = (Inl e, s')"
  by (simp add: step_stargazers_count_def bnd_def)

lemma step_get_languages_raises:
  "''get_languages'' \<in> set fs \<Longrightarrow> get_repo_attr repo ''get_languages'' False [] [] s = (Inl e, s')
     \<Longrightarrow> step_get_languages fs repo entry s = (Inl e, s')"
  by (simp add: step_get_languages_def bnd_def)

lemma step_commits_1y_raises:
  "''commits_1y'' \<in> set fs
     \<Longrightarrow> get_repo_attr repo ''get_stats_commit_activity'' False [] [] s = (Inl e, s')
     \<Longrightarrow> step_commits_1y fs repo entry s = (Inl e, s')"
  by (simp add: step_commits_1y_def bnd_def)

lemma step_commit_activity_raises:
  "''commit_activity'' \<in> set fs
     \<Longrightarrow> get_repo_attr repo ''get_stats_commit_activity'' False [] [] s = (Inl e, s')
     \<Longrightarrow> step_commit_activity fs py repo entry s = (Inl e, s')"
  by (simp add: step_commit_activity_def bnd_def)

lemma step_get_commits_total:
  "\<exists>entry' s'. step_get_commits fs repo entry s = (Inr entry', s')"
  by (auto simp: step_get_commits_def ret_def split: prod.splits sum.splits)

lemma step_get_commits_caught:
  "''get_commits'' \<in> set fs \<Longrightarrow> get_repo_attr repo ''get_commits'' True [] [] s = (Inl e, s')
     \<Longrightarrow> step_get_commits fs repo entry s = (Inr (dict_set entry ''get_commits'' VNone), s')"
  by (simp add: step_get_commits_def)

lemma build_entry_split:
  assumes "entry_steps fs py cbs owner repo = pre @ st # post"
    and "run_steps pre [] s = (Inr en, s1)"
  shows "build_entry fs py cbs owner repo s = bnd (st en) (run_steps post) s1"
proof -
  have "build_entry fs py cbs owner repo s = bnd (run_steps pre []) (run_steps (st # post)) s"
    by (simp add: build_entry_def assms(1) run_steps_append del: run_steps.simps)
  also have "\<dots> = run_steps (st # post) en s1" using assms(2) by (rule bnd_Inr)
  finally show ?thesis by simp
qed

text \<open>
  Claim C3. The statement for \<^verbatim>\<open>get_commits\<close> never raises. Let the statements of the
  loop body be split at a statement \<open>st\<close>, and let the statements before it have run and
  given the record \<open>en\<close> in the state \<open>s1\<close>.
  \<^item> If \<open>st\<close> is the statement for \<^verbatim>\<open>get_commits\<close>, the field is requested and its resolution
    raises, then the record gets the entry \<^verbatim>\<open>get_commits\<close> with the value \<^verbatim>\<open>None\<close> and the
    remaining statements run on it.
  \<^item> If \<open>st\<close> is the statement of another field, the field is requested and the call of the
    resolver for it raises \<open>e\<close>, then \<open>st\<close> raises \<open>e\<close>.
  \<^item> If \<open>st\<close> raises \<open>e\<close> (from the resolver or from what is done with its result), then the
    loop body raises \<open>e\<close>, and the loop ends with \<open>e\<close> without a record for this repository
    or for one after it.
  \<^item> If the loop body returns a record, the loop goes on with the remaining repositories.
\<close>

theorem get_commits_lenient_others_abort:
  assumes steps: "entry_steps fs py cbs owner repo = pre @ st # post"
    and pre: "run_steps pre [] s = (Inr en, s1)"
  shows "(\<forall>entry t. \<exists>entry' t'. step_get_commits fs repo entry t = (Inr entry', t'))
     \<and> (st = step_get_commits fs repo \<and> ''get_commits'' \<in> set fs
          \<and> get_repo_attr repo ''get_commits'' True [] [] s1 = (Inl e, s2)
        \<longrightarrow> build_entry fs py cbs owner repo s
              = run_steps post (dict_set en ''get_commits'' VNone) s2)
     \<and> ((\<exists>f acc tf. (f, acc, tf, st) \<in> set
            [(''name'', ''name'', False, step_name fs py owner repo),
             (''full_name'', ''full_name'', False, step_full_name fs py owner repo),
             (''private'', ''private'', False, step_flag fs repo ''private''),
             (''archived'', ''archived'', False, step_flag fs repo ''archived''),
             (''fork'', ''fork'', False, step_flag fs repo ''fork''),
             (''created_at'', ''created_at'', False, step_created_at fs repo),
             (''issues'', ''get_issues'', True, step_count fs repo ''issues''),
             (''contributors'', ''get_contributors'', True, step_count fs repo ''contributors''),
             (''subscribers'', ''get_subscribers'', True, step_count fs repo ''subscribers''),
             (''branches'', ''get_branches'', True, step_count fs repo ''branches''),
             (''releases'', ''get_releases'', True, step_count fs repo ''releases''),
             (''tags'', ''get_tags'', True, step_count fs repo ''tags''),
             (''labels'', ''get_labels'', True, step_count fs repo ''labels''),
             (''pulls'', ''get_pulls'', True, step_count fs repo ''pulls''),
             (''downloads'', ''get_downloads'', True, step_count fs repo ''downloads''),
             (''forks_count'', ''forks_count'', False, step_forks_count fs repo),
             (''stargazers_count'', ''stargazers_count'', False, step_stargazers_count fs repo),
             (''get_languages'', ''get_languages'', False, step_get_languages fs repo),
             (''commits_1y'', ''get_stats_commit_activity'', False, step_commits_1y fs repo),
             (''commit_activity'', ''get_stats_commit_activity'', False,
                step_commit_activity fs py repo)]
            \<and> f \<in> set fs \<and> get_repo_attr repo acc tf [] [] s1 = (Inl e, s2))
        \<longrightarrow> st en s1 = (Inl e, s2))
     \<and> (st en s1 = (Inl e, s2)
        \<longrightarrow> build_entry fs py cbs owner repo s = (Inl e, s2)
            \<and> scan_loop fs py cbs owner (repo # repos) s = (([], Some e), s2))
     \<and> (build_entry fs py cbs owner repo s = (Inr en', s3)
        \<longrightarrow> scan_loop fs py cbs owner (repo # repos) s
              = (case scan_loop fs py cbs owner repos s3 of
                   ((recs, out), s4) \<Rightarrow> (((repo, en') # recs, out), s4)))"
proof (intro conjI)
  show "\<forall>entry t. \<exists>entry' t'. step_get_commits fs repo entry t = (Inr entry', t')"
    using step_get_commits_total by blast
next
  show "st = step_get_commits fs repo \<and> ''get_commits'' \<in> set fs
          \<and> get_repo_attr repo ''get_commits'' True [] [] s1 = (Inl e, s2)
        \<longrightarrow> build_entry fs py cbs owner repo s
              = run_steps post (dict_set en ''get_commits'' VNone) s2"
  proof
    assume h: "st = step_get_commits fs repo \<and> ''get_commits'' \<in> set fs
          \<and> get_repo_attr repo ''get_commits'' True [] [] s1 = (Inl e, s2)"
    then have "st en s1 = (Inr (dict_set en ''get_commits'' VNone), s2)"
      using step_get_commits_caught by blast
    then show "build_entry fs py cbs owner repo s
              = run_steps post (dict_set en ''get_commits'' VNone) s2"
      unfolding build_entry_split [OF steps pre] by (rule bnd_Inr)
  qed
next
  show "st en s1 = (Inl e, s2)
        \<longrightarrow> build_entry fs py cbs owner repo s = (Inl e, s2)
            \<and> scan_loop fs py cbs owner (repo # repos) s = (([], Some e), s2)"
  proof
    assume "st en s1 = (Inl e, s2)"
    then have "build_entry fs py cbs owner repo s = (Inl e, s2)"
      unfolding build_entry_split [OF steps pre] by (rule bnd_Inl)
    then show "build_entry fs py cbs owner repo s = (Inl e, s2)
            \<and> scan_loop fs py cbs owner (repo # repos) s = (([], Some e), s2)"
      by simp
  qed
next
  show "build_entry fs py cbs owner repo s = (Inr en', s3)
        \<longrightarrow> scan_loop fs py cbs owner (repo # repos) s
              = (case scan_loop fs py cbs owner repos s3 of
                   ((recs, out), s4) \<Rightarrow> (((repo, en') # recs, out), s4))"
    by simp
next
  define tab where "tab =
            [(''name'', ''name'', False, step_name fs py owner repo),
             (''full_name'', ''full_name'', False, step_full_name fs py owner repo),
             (''private'', ''private'', False, step_flag fs repo ''private''),
             (''archived'', ''archived'', False, step_flag fs repo ''archived''),
             (''fork'', ''fork'', False, step_flag fs repo ''fork''),
             (''created_at'', ''created_at'', False, step_created_at fs repo),
             (''issues'', ''get_issues'', True, step_count fs repo ''issues''),
             (''contributors'', ''get_contributors'', True, step_count fs repo ''contributors''),
             (''subscribers'', ''get_subscribers'', True, step_count fs repo ''subscribers''),
             (''branches'', ''get_branches'', True, step_count fs repo ''branches''),
             (''releases'', ''get_releases'', True, step_count fs repo ''releases''),
             (''tags'', ''get_tags'', True, step_count fs repo ''tags''),
             (''labels'', ''get_labels'', True, step_count fs repo ''labels''),
             (''pulls'', ''get_pulls'', True, step_count fs repo ''pulls''),
             (''downloads'', ''get_downloads'', True, step_count fs repo ''downloads''),
             (''forks_count'', ''forks_count'', False, step_forks_count fs repo),
             (''stargazers_count'', ''stargazers_count'', False, step_stargazers_count fs repo),
             (''get_languages'', ''get_languages'', False, step_get_languages fs repo),
             (''commits_1y'', ''get_stats_commit_activity'', False, step_commits_1y fs repo),
             (''commit_activity'', ''get_stats_commit_activity'', False,
                step_commit_activity fs py repo)]"
  define ok :: "string \<times> string \<times> bool \<times> 'a step \<Rightarrow> bool" where
    "ok = (\<lambda>q. fst q \<in> set fs \<and> get_repo_attr repo (fst (snd q)) (fst (snd (snd q))) [] [] s1 = (Inl e, s2)
              \<longrightarrow> snd (snd (snd q)) en s1 = (Inl e, s2))"
  have o1: "ok (''name'', ''name'', False, step_name fs py owner repo)"
    unfolding ok_def using step_name_raises by fastforce
  have o2: "ok (''full_name'', ''full_name'', False, step_full_name fs py owner repo)"
    unfolding ok_def using step_full_name_raises by fastforce
  have o3: "ok (k, k, False, step_flag fs repo k)" for k
    unfolding ok_def using step_flag_raises by fastforce
  have o4: "ok (''created_at'', ''created_at'', False, step_created_at fs repo)"
    unfolding ok_def using step_created_at_raises by fastforce
  have o5: "ok (k, ''get_'' @ k, True, step_count fs repo k)" for k
    unfolding ok_def using step_count_raises by fastforce
  have o6: "ok (''forks_count'', ''forks_count'', False, step_forks_count fs repo)"
    unfolding ok_def using step_forks_count_raises by fastforce
  have o7: "ok (''stargazers_count'', ''stargazers_count'', False, step_stargazers_count fs repo)"
    unfolding ok_def using step_stargazers_count_raises by fastforce
  have o8: "ok (''get_languages'', ''get_languages'', False, step_get_languages fs repo)"
    unfolding ok_def using step_get_languages_raises by fastforce
  have o9: "ok (''commits_1y'', ''get_stats_commit_activity'', False, step_commits_1y fs repo)"
    unfolding ok_def using step_commits_1y_raises by fastforce
  have o10: "ok (''commit_activity'', ''get_stats_commit_activity'', False,
                step_commit_activity fs py repo)"
    unfolding ok_def using step_commit_activity_raises by fastforce
  have all: "\<forall>q\<in>set tab. ok q"
    unfolding tab_def
    using o1 o2 o3 [of "''private''"] o3 [of "''archived''"] o3 [of "''fork''"] o4
      o5 [of "''issues''"] o5 [of "''contributors''"] o5 [of "''subscribers''"]
      o5 [of "''branches''"] o5 [of "''releases''"] o5 [of "''tags''"] o5 [of "''labels''"]
      o5 [of "''pulls''"] o5 [of "''downloads''"] o6 o7 o8 o9 o10
    by simp
  have "(\<exists>f acc tf. (f, acc, tf, st) \<in> set tab
            \<and> f \<in> set fs \<and> get_repo_attr repo acc tf [] [] s1 = (Inl e, s2))
        \<longrightarrow> st en s1 = (Inl e, s2)"
    using all unfolding ok_def by fastforce
  then show "(\<exists>f acc tf. (f, acc, tf, st) \<in> set
            [(''name'', ''name'', False, step_name fs py owner repo),
             (''full_name'', ''full_name'', False, step_full_name fs py owner repo),
             (''private'', ''private'', False, step_flag fs repo ''private''),
             (''archived'', ''archived'', False, step_flag fs repo ''archived''),
             (''fork'', ''fork'', False, step_flag fs repo ''fork''),
             (''created_at'', ''created_at'', False, step_created_at fs repo),
             (''issues'', ''get_issues'', True, step_count fs repo ''issues''),
             (''contributors'', ''get_contributors'', True, step_count fs repo ''contributors''),
             (''subscribers'', ''get_subscribers'', True, step_count fs repo ''subscribers''),
             (''branches'', ''get_branches'', True, step_count fs repo ''branches''),
             (''releases'', ''get_releases'', True, step_count fs repo ''releases''),
             (''tags'', ''get_tags'', True, step_count fs repo ''tags''),
             (''labels'', ''get_labels'', True, step_count fs repo ''labels''),
             (''pulls'', ''get_pulls'', True, step_count fs repo ''pulls''),
             (''downloads'', ''get_downloads'', True, step_count fs repo ''downloads''),
             (''forks_count'', ''forks_count'', False, step_forks_count fs repo),
             (''stargazers_count'', ''stargazers_count'', False, step_stargazers_count fs repo),
             (''get_languages'', ''get_languages'', False, step_get_languages fs repo),
             (''commits_1y'', ''get_stats_commit_activity'', False, step_commits_1y fs repo),
             (''commit_activity'', ''get_stats_commit_activity'', False,
                step_commit_activity fs py repo)]
            \<and> f \<in> set fs \<and> get_repo_attr repo acc tf [] [] s1 = (Inl e, s2))
        \<longrightarrow> st en s1 = (Inl e, s2)"
    unfolding tab_def .
qed

theorem get_commits_lenient_others_abort_witness:
  "entry_steps [''get_commits''] demo_py None demo_owner (demo_repo 1 ''Beta'' 7)
     = take 18 (entry_steps [''get_commits''] demo_py None demo_owner (demo_repo 1 ''Beta'' 7))
       @ step_get_commits [''get_commits''] (demo_repo 1 ''Beta'' 7)
       # drop 19 (entry_steps [''get_commits''] demo_py None demo_owner (demo_repo 1 ''Beta'' 7))
   \<and> run_steps (take 18 (entry_steps [''get_commits''] demo_py None demo_owner (demo_repo 1 ''Beta'' 7)))
        [] init_state = (Inr [], init_state)
   \<and> fst (get_repo_attr (demo_repo 1 ''Beta'' 7) ''get_commits'' True [] [] init_state)
       = Inl RateLimitExceededException
   \<and> fst (build_entry [''get_commits''] demo_py None demo_owner (demo_repo 1 ''Beta'' 7) init_state)
       = Inr [(''get_commits'', VNone)]
   \<and> entry_steps [''created_at''] demo_py None demo_owner (demo_repo 1 ''Beta'' 7)
     = take 5 (entry_steps [''created_at''] demo_py None demo_owner (demo_repo 1 ''Beta'' 7))
       @ step_created_at [''created_at''] (demo_repo 1 ''Beta'' 7)
       # drop 6 (entry_steps [''created_at''] demo_py None demo_owner (demo_repo 1 ''Beta'' 7))
   \<and> run_steps (take 5 (entry_steps [''created_at''] demo_py None demo_owner (demo_repo 1 ''Beta'' 7)))
        [] init_state = (Inr [], init_state)
   \<and> fst (get_repo_attr (demo_repo 1 ''Beta'' 7) ''created_at'' False [] [] init_state)
       = Inl AttributeError
   \<and> fst (scan_loop [''created_at''] demo_py None demo_owner
            [demo_repo 1 ''Beta'' 7, demo_repo 2 ''alpha'' 5] init_state)
       = ([], Some AttributeError)"
proof -
  define R :: "string list repo" where "R = demo_repo 1 ''Beta'' 7"
  define G where "G = get_repo_attr R ''get_commits'' True [] [] init_state"
  define C where "C = get_repo_attr R ''created_at'' False [] [] init_state"
  have a1: "entry_steps [''get_commits''] demo_py None demo_owner R
     = take 18 (entry_steps [''get_commits''] demo_py None demo_owner R)
       @ step_get_commits [''get_commits''] R
       # drop 19 (entry_steps [''get_commits''] demo_py None demo_owner R)"
    by (simp add: entry_steps_def)
  have b1: "run_steps (take 18 (entry_steps [''get_commits''] demo_py None demo_owner R))
        [] init_state = (Inr [], init_state)"
    by (simp add: entry_steps_def step_name_def step_full_name_def step_flag_def step_created_at_def
        step_count_def step_forks_count_def step_stargazers_count_def step_get_languages_def
        bnd_def ret_def)
  have g1: "fst G = Inl RateLimitExceededException"
    by (simp add: G_def R_def get_repo_attr_def get_repo_attr_body_def demo_repo_def init_state_def Let_def)
  then have g1': "get_repo_attr R ''get_commits'' True [] [] init_state
       = (Inl RateLimitExceededException, snd G)"
    by (simp add: G_def prod_eq_iff)
  have post1: "run_steps (drop 19 (entry_steps [''get_commits''] demo_py None demo_owner R))
         [(''get_commits'', VNone)] (snd G) = (Inr [(''get_commits'', VNone)], snd G)"
    by (simp add: entry_steps_def step_commits_1y_def step_commit_activity_def step_callbacks_def
        bnd_def ret_def)
  have r1: "fst (build_entry [''get_commits''] demo_py None demo_owner R init_state)
       = Inr [(''get_commits'', VNone)]"
    using get_commits_lenient_others_abort [OF a1 b1, where e = RateLimitExceededException and ?s2.0 = "snd G"
        and repos = "[]" and en' = "[]" and ?s3.0 = init_state] g1' post1
    by (auto simp del: scan_loop.simps)
  have a2: "entry_steps [''created_at''] demo_py None demo_owner R
     = take 5 (entry_steps [''created_at''] demo_py None demo_owner R)
       @ step_created_at [''created_at''] R
       # drop 6 (entry_steps [''created_at''] demo_py None demo_owner R)"
    by (simp add: entry_steps_def)
  have b2: "run_steps (take 5 (entry_steps [''created_at''] demo_py None demo_owner R))
        [] init_state = (Inr [], init_state)"
    by (simp add: entry_steps_def step_name_def step_full_name_def step_flag_def bnd_def ret_def)
  have g2: "fst C = Inl AttributeError"
    by (simp add: C_def R_def get_repo_attr_def get_repo_attr_body_def demo_repo_def init_state_def Let_def)
  then have g2': "get_repo_attr R ''created_at'' False [] [] init_state = (Inl AttributeError, snd C)"
    by (simp add: C_def prod_eq_iff)
  have r2: "fst (scan_loop [''created_at''] demo_py None demo_owner
            [R, demo_repo 2 ''alpha'' 5] init_state) = ([], Some AttributeError)"
    using get_commits_lenient_others_abort [OF a2 b2, where e = AttributeError and ?s2.0 = "snd C"
        and repos = "[demo_repo 2 ''alpha'' 5]" and en' = "[]" and ?s3.0 = init_state] g2'
    by (auto simp del: scan_loop.simps)
  show ?thesis
    using a1 b1 g1 r1 a2 b2 g2 r2 unfolding G_def C_def R_def by (intro conjI)
qed

end
